theory Spec2Isabelle
  imports Main
begin

section \<open>Text\<close>

text \<open>
  A Python \<open>str\<close> is a sequence of Unicode code points. Text is modelled as a list of
  code points (natural numbers), so that the model covers every input string and
  \<open>\s\<close> can be given its Unicode meaning. \<open>str\<close> turns an ASCII literal into text;
  the backslash, which a HOL string literal cannot hold, is the code point 92.
\<close>

type_synonym ustring = "nat list"

definition str :: "string \<Rightarrow> ustring" where
  "str cs = map of_char cs"

definition BS :: ustring where
  "BS = [92]"

definition NL :: ustring where
  "NL = [10]"

text \<open>Code point 8594 is the rightwards arrow used in the rule descriptions.\<close>

definition ARROW :: ustring where
  "ARROW = [8594]"

section \<open>The part of Python's \<open>re\<close> module that the rules use\<close>

text \<open>
  \<open>transform\<close> calls \<open>re.subn(pattern, replacement, text)\<close> with pattern and replacement
  given as strings. The model below parses the pattern string into a list of nodes,
  parses the replacement template, and scans the text from left to right. Syntax of
  \<open>re\<close> that no rule of the registry uses is answered with \<open>Unsupported\<close>; the other
  errors stand for \<open>re.error\<close>.
\<close>

datatype error = BadPattern | BadTemplate | InvalidGroupReference nat | Unsupported

datatype atom = LITERAL nat | CATEGORY_SPACE | CHARSET bool "nat list"

datatype node =
    ATOM atom
  | MAX_REPEAT nat atom
  | AT_BEGINNING
  | SUBPATTERN nat "node list"

record compiled =
  multiline :: bool
  groups :: nat
  nodes :: "node list"

text \<open>
  \<open>\s\<close> on a \<open>str\<close> pattern matches the Unicode whitespace characters:
  U+0009..U+000D, U+001C..U+0020, U+0085, U+00A0, U+1680, U+2000..U+200A, U+2028,
  U+2029, U+202F, U+205F and U+3000.
\<close>

definition is_space :: "nat \<Rightarrow> bool" where
  "is_space c \<longleftrightarrow>
     (9 \<le> c \<and> c \<le> 13) \<or> (28 \<le> c \<and> c \<le> 32) \<or> c = 133 \<or> c = 160 \<or> c = 5760 \<or>
     (8192 \<le> c \<and> c \<le> 8202) \<or> c = 8232 \<or> c = 8233 \<or> c = 8239 \<or> c = 8287 \<or> c = 12288"

definition is_digit :: "nat \<Rightarrow> bool" where
  "is_digit c \<longleftrightarrow> 48 \<le> c \<and> c \<le> 57"

definition is_ascii_letter :: "nat \<Rightarrow> bool" where
  "is_ascii_letter c \<longleftrightarrow> (65 \<le> c \<and> c \<le> 90) \<or> (97 \<le> c \<and> c \<le> 122)"

subsection \<open>Parsing a pattern\<close>

text \<open>
  The members of a character set, up to the closing bracket. A bracket that comes
  first is a member. Escapes and ranges inside a set are not modelled.
\<close>

fun set_members :: "ustring \<Rightarrow> nat list \<Rightarrow> error + (nat list \<times> ustring)" where
  "set_members [] acc = Inl BadPattern"
| "set_members (c # cs) acc =
     (if c = 93 \<and> acc \<noteq> [] then Inr (rev acc, cs)
      else if c = 92 \<or> c = 45 then Inl Unsupported
      else set_members cs (c # acc))"

definition parse_set :: "ustring \<Rightarrow> error + (atom \<times> ustring)" where
  "parse_set cs =
     (case cs of
        [] \<Rightarrow> Inl BadPattern
      | c # cs' \<Rightarrow>
          (if c = 94
           then (case set_members cs' [] of
                   Inl e \<Rightarrow> Inl e | Inr (ms, rest) \<Rightarrow> Inr (CHARSET True ms, rest))
           else (case set_members cs [] of
                   Inl e \<Rightarrow> Inl e | Inr (ms, rest) \<Rightarrow> Inr (CHARSET False ms, rest))))"

text \<open>
  A quantifier applies to the item parsed last (the head of the reversed item list).
  Only a quantified single character is modelled.
\<close>

fun repeat :: "nat \<Rightarrow> node list \<Rightarrow> error + node list" where
  "repeat mn [] = Inl BadPattern"
| "repeat mn (ATOM a # cur) = Inr (MAX_REPEAT mn a # cur)"
| "repeat mn (AT_BEGINNING # cur) = Inl BadPattern"
| "repeat mn (MAX_REPEAT k a # cur) = Inl Unsupported"
| "repeat mn (SUBPATTERN g ns # cur) = Inl Unsupported"

lemma set_members_shorter:
  "set_members cs acc = Inr (ms, rest) \<Longrightarrow> length rest < Suc (length cs)"
  by (induction cs acc rule: set_members.induct) (auto split: if_splits)

lemma parse_set_shorter:
  "parse_set cs = Inr (a, rest) \<Longrightarrow> length rest < Suc (length cs)"
  by (auto simp: parse_set_def split: list.splits if_splits sum.splits
      dest: set_members_shorter)

text \<open>
  \<open>parse cs ng stack cur\<close>: \<open>ng\<close> groups have been opened so far, \<open>stack\<close> holds, for
  every group still open, its number and the items that precede it, and \<open>cur\<close> is the
  reversed list of the items of the innermost open sequence.
\<close>

function parse ::
  "ustring \<Rightarrow> nat \<Rightarrow> (nat \<times> node list) list \<Rightarrow> node list \<Rightarrow> error + (nat \<times> node list)"
where
  "parse [] ng stack cur =
     (case stack of [] \<Rightarrow> Inr (ng, rev cur) | f # fs \<Rightarrow> Inl BadPattern)"
| "parse (c # cs) ng stack cur =
     (if c = 92 then
        (case cs of
           [] \<Rightarrow> Inl BadPattern
         | d # cs' \<Rightarrow>
             if d = 115 then parse cs' ng stack (ATOM CATEGORY_SPACE # cur)
             else if is_ascii_letter d \<or> is_digit d then Inl Unsupported
             else parse cs' ng stack (ATOM (LITERAL d) # cur))
      else if c = 91 then
        (case parse_set cs of
           Inl e \<Rightarrow> Inl e
         | Inr (a, rest) \<Rightarrow> parse rest ng stack (ATOM a # cur))
      else if c = 40 then
        (case cs of
           [] \<Rightarrow> Inl BadPattern
         | d # cs' \<Rightarrow>
             if d = 63 then Inl Unsupported
             else parse cs (Suc ng) ((Suc ng, cur) # stack) [])
      else if c = 41 then
        (case stack of
           [] \<Rightarrow> Inl BadPattern
         | (g, outer) # stack' \<Rightarrow> parse cs ng stack' (SUBPATTERN g (rev cur) # outer))
      else if c = 42 then
        (case repeat 0 cur of Inl e \<Rightarrow> Inl e | Inr cur' \<Rightarrow> parse cs ng stack cur')
      else if c = 43 then
        (case repeat 1 cur of Inl e \<Rightarrow> Inl e | Inr cur' \<Rightarrow> parse cs ng stack cur')
      else if c = 94 then parse cs ng stack (AT_BEGINNING # cur)
      else if c = 46 \<or> c = 63 \<or> c = 123 \<or> c = 36 \<or> c = 124 then Inl Unsupported
      else parse cs ng stack (ATOM (LITERAL c) # cur))"
  by pat_completeness auto
termination
  by (relation "measure (\<lambda>(cs, ng, stack, cur). length cs)")
     (auto dest: parse_set_shorter)

text \<open>
  \<open>re.compile\<close>: the inline flag \<open>(?m)\<close> at the start of the pattern switches
  multi-line mode on.
\<close>

definition compile :: "ustring \<Rightarrow> error + compiled" where
  "compile p =
     (let (ml, body) =
        (if take 4 p = [40, 63, 109, 41] then (True, drop 4 p) else (False, p))
      in case parse body 0 [] [] of
           Inl e \<Rightarrow> Inl e
         | Inr (ng, ns) \<Rightarrow> Inr \<lparr>multiline = ml, groups = ng, nodes = ns\<rparr>)"

subsection \<open>Matching\<close>

text \<open>
  A matching state is the character before the current position (\<open>None\<close> at the start
  of the text), the text that remains, and the groups captured so far (the newest
  first). A node maps a state to the states it can end in, the preferred one first: the
  engine backtracks through them in that order, and a repeat is greedy.
\<close>

type_synonym mstate = "nat option \<times> ustring \<times> (nat \<times> ustring) list"

fun atom_ok :: "atom \<Rightarrow> nat \<Rightarrow> bool" where
  "atom_ok (LITERAL c) x = (x = c)"
| "atom_ok CATEGORY_SPACE x = is_space x"
| "atom_ok (CHARSET negate ms) x = (if negate then x \<notin> set ms else x \<in> set ms)"

definition advance :: "nat \<Rightarrow> mstate \<Rightarrow> mstate" where
  "advance i st =
     (case st of (prev, rest, caps) \<Rightarrow>
        (if i = 0 then prev else Some (rest ! (i - 1)), drop i rest, caps))"

fun match_node :: "bool \<Rightarrow> node \<Rightarrow> mstate \<Rightarrow> mstate list"
  and match_seq :: "bool \<Rightarrow> node list \<Rightarrow> mstate \<Rightarrow> mstate list"
where
  "match_node ml (ATOM a) (prev, rest, caps) =
     (case rest of
        [] \<Rightarrow> []
      | x # xs \<Rightarrow> if atom_ok a x then [(Some x, xs, caps)] else [])"
| "match_node ml (MAX_REPEAT mn a) (prev, rest, caps) =
     map (\<lambda>i. advance i (prev, rest, caps))
       (rev [mn ..< Suc (length (takeWhile (atom_ok a) rest))])"
| "match_node ml AT_BEGINNING (prev, rest, caps) =
     (if prev = None \<or> (ml \<and> prev = Some 10) then [(prev, rest, caps)] else [])"
| "match_node ml (SUBPATTERN g ns) (prev, rest, caps) =
     map (\<lambda>(prev', rest', caps').
            (prev', rest', (g, take (length rest - length rest') rest) # caps'))
       (match_seq ml ns (prev, rest, caps))"
| "match_seq ml [] st = [st]"
| "match_seq ml (n # ns) st = concat (map (match_seq ml ns) (match_node ml n st))"

text \<open>
  One attempt at the current position. With \<open>must_advance\<close> an attempt that ends where it
  started is rejected and the engine backtracks to the next alternative.
\<close>

definition match_here :: "compiled \<Rightarrow> bool \<Rightarrow> nat option \<Rightarrow> ustring \<Rightarrow> mstate option" where
  "match_here p must_advance prev rest =
     (case filter (\<lambda>(prev', rest', caps').
                     if must_advance then length rest' < length rest else True)
             (match_seq (multiline p) (nodes p) (prev, rest, []))
      of [] \<Rightarrow> None | st # sts \<Rightarrow> Some st)"

subsection \<open>The replacement template\<close>

datatype titem = TLIT nat | TGROUP nat

text \<open>
  In a template a backslash followed by a digit from 1 to 9 refers to a group, and two
  backslashes stand for one. A reference to a group the pattern does not have is an
  error. Other escapes are not modelled.
\<close>

fun parse_template :: "ustring \<Rightarrow> nat \<Rightarrow> error + titem list" where
  "parse_template [] ng = Inr []"
| "parse_template [c] ng = (if c = 92 then Inl BadTemplate else Inr [TLIT c])"
| "parse_template (c # d # cs) ng =
     (if c = 92 then
        (if d = 92 then map_sum id ((#) (TLIT 92)) (parse_template cs ng)
         else if 49 \<le> d \<and> d \<le> 57 then
           (if (case cs of [] \<Rightarrow> False | e # es \<Rightarrow> is_digit e) then Inl Unsupported
            else if ng < d - 48 then Inl (InvalidGroupReference (d - 48))
            else map_sum id ((#) (TGROUP (d - 48))) (parse_template cs ng))
         else Inl Unsupported)
      else map_sum id ((#) (TLIT c)) (parse_template (d # cs) ng))"

text \<open>A group that took no part in the match expands to the empty string.\<close>

fun expand :: "titem list \<Rightarrow> (nat \<times> ustring) list \<Rightarrow> ustring" where
  "expand [] caps = []"
| "expand (TLIT c # ts) caps = c # expand ts caps"
| "expand (TGROUP g # ts) caps =
     (case map_of caps g of None \<Rightarrow> [] | Some s \<Rightarrow> s) @ expand ts caps"

subsection \<open>\<open>re.subn\<close>\<close>

text \<open>
  The scan looks for the leftmost match from the current position, copies the text
  before it, appends the expanded template and goes on behind the match. After an
  empty match the next attempt at the same position must advance. The result is the
  new text and the number of replacements.
\<close>

function subn_scan ::
  "compiled \<Rightarrow> titem list \<Rightarrow> nat option \<Rightarrow> ustring \<Rightarrow> ustring \<times> nat"
where
  "subn_scan p t prev rest =
     (case match_here p False prev rest of
        None \<Rightarrow>
          (case rest of
             [] \<Rightarrow> ([], 0)
           | x # xs \<Rightarrow> (case subn_scan p t (Some x) xs of (out, n) \<Rightarrow> (x # out, n)))
      | Some (prev', rest', caps) \<Rightarrow>
          if length rest' < length rest then
            (case subn_scan p t prev' rest' of (out, n) \<Rightarrow> (expand t caps @ out, Suc n))
          else
            (case match_here p True prev rest of
               Some (prev'', rest'', caps') \<Rightarrow>
                 if length rest'' < length rest then
                   (case subn_scan p t prev'' rest'' of
                      (out, n) \<Rightarrow> (expand t caps @ expand t caps' @ out, Suc (Suc n)))
                 else (expand t caps, 1)
             | None \<Rightarrow>
                 (case rest of
                    [] \<Rightarrow> (expand t caps, 1)
                  | x # xs \<Rightarrow>
                      (case subn_scan p t (Some x) xs of
                         (out, n) \<Rightarrow> (expand t caps @ x # out, Suc n)))))"
  by pat_completeness auto
termination
  by (relation "measure (\<lambda>(p, t, prev, rest). length rest)") auto

declare subn_scan.simps [simp del]

definition subn :: "ustring \<Rightarrow> ustring \<Rightarrow> ustring \<Rightarrow> error + (ustring \<times> nat)" where
  "subn pat repl text =
     (case compile pat of
        Inl e \<Rightarrow> Inl e
      | Inr p \<Rightarrow>
          (case parse_template repl (groups p) of
             Inl e \<Rightarrow> Inl e
           | Inr t \<Rightarrow> Inr (subn_scan p t None text)))"

subsection \<open>\<open>re.search\<close>\<close>

text \<open>
  The leftmost match of a pattern in a text, if there is one: the attempt that a scan
  makes at every position, from left to right.
\<close>

fun search_scan :: "compiled \<Rightarrow> nat option \<Rightarrow> ustring \<Rightarrow> mstate option" where
  "search_scan p prev [] = match_here p False prev []"
| "search_scan p prev (x # xs) =
     (case match_here p False prev (x # xs) of
        Some st \<Rightarrow> Some st
      | None \<Rightarrow> search_scan p (Some x) xs)"

definition search :: "ustring \<Rightarrow> ustring \<Rightarrow> error + mstate option" where
  "search pat s =
     (case compile pat of Inl e \<Rightarrow> Inl e | Inr p \<Rightarrow> Inr (search_scan p None s))"

section \<open>The rule registry (rules.py)\<close>

record ConversionRule =
  pattern :: ustring
  replacement :: ustring
  name :: ustring
  description :: ustring

text \<open>
  The rules in the order of the source. Every pattern and replacement is the raw
  string of the source, character by character: \<open>BS\<close> is one backslash, so the first
  pattern reads \<open>\\glspl\s*\{([^{}]+)\}\<close> and its replacement \<open>#glspl("\1")\<close>.
\<close>

definition CONVERSION_RULES :: "ConversionRule list" where
  "CONVERSION_RULES = [
     \<lparr>pattern = BS @ BS @ str ''glspl'' @ BS @ str ''s*'' @ BS @ str ''{([^{}]+)'' @ BS @ str ''}'',
      replacement = str ''#glspl(\"'' @ BS @ str ''1\")'',
      name = str ''glspl'',
      description = str ''Convert plural glossary references ('' @ BS @ str ''glspl{term} ''
        @ ARROW @ str '' #glspl(\"term\"))''\<rparr>,
     \<lparr>pattern = BS @ BS @ str ''gls'' @ BS @ str ''s*'' @ BS @ str ''{([^{}]+)'' @ BS @ str ''}'',
      replacement = str ''#gls(\"'' @ BS @ str ''1\")'',
      name = str ''gls'',
      description = str ''Convert singular glossary references ('' @ BS @ str ''gls{term} ''
        @ ARROW @ str '' #gls(\"term\"))''\<rparr>,
     \<lparr>pattern = BS @ BS @ str ''textit'' @ BS @ str ''s*'' @ BS @ str ''{([^{}]+)'' @ BS @ str ''}'',
      replacement = str ''_'' @ BS @ str ''1_'',
      name = str ''textit'',
      description = str ''Convert italic text formatting ('' @ BS @ str ''textit{text} ''
        @ ARROW @ str '' _text_)''\<rparr>,
     \<lparr>pattern = BS @ BS @ str ''emph'' @ BS @ str ''s*'' @ BS @ str ''{([^{}]+)'' @ BS @ str ''}'',
      replacement = str ''_'' @ BS @ str ''1_'',
      name = str ''emph'',
      description = str ''Convert emphasized text ('' @ BS @ str ''emph{text} ''
        @ ARROW @ str '' _text_)''\<rparr>,
     \<lparr>pattern = BS @ BS @ str ''textbf'' @ BS @ str ''s*'' @ BS @ str ''{([^{}]+)'' @ BS @ str ''}'',
      replacement = str ''*'' @ BS @ str ''1*'',
      name = str ''textbf'',
      description = str ''Convert bold text formatting ('' @ BS @ str ''textbf{text} ''
        @ ARROW @ str '' *text*)''\<rparr>,
     \<lparr>pattern = BS @ BS @ str ''chapter'' @ BS @ str ''s*'' @ BS @ str ''{([^{}]+)'' @ BS @ str ''}'',
      replacement = str ''= '' @ BS @ str ''1'',
      name = str ''chapter'',
      description = str ''Convert chapter headings ('' @ BS @ str ''chapter{Title} ''
        @ ARROW @ str '' = Title)''\<rparr>,
     \<lparr>pattern = BS @ BS @ str ''section'' @ BS @ str ''s*'' @ BS @ str ''{([^{}]+)'' @ BS @ str ''}'',
      replacement = str ''== '' @ BS @ str ''1'',
      name = str ''section'',
      description = str ''Convert section headings ('' @ BS @ str ''section{Title} ''
        @ ARROW @ str '' == Title)''\<rparr>,
     \<lparr>pattern = BS @ BS @ str ''subsection'' @ BS @ str ''s*'' @ BS @ str ''{([^{}]+)'' @ BS @ str ''}'',
      replacement = str ''=== '' @ BS @ str ''1'',
      name = str ''subsection'',
      description = str ''Convert subsection headings ('' @ BS @ str ''subsection{Title} ''
        @ ARROW @ str '' === Title)''\<rparr>,
     \<lparr>pattern = BS @ BS @ str ''subsubsection'' @ BS @ str ''s*'' @ BS @ str ''{([^{}]+)'' @ BS @ str ''}'',
      replacement = str ''==== '' @ BS @ str ''1'',
      name = str ''subsubsection'',
      description = str ''Convert subsubsection headings ('' @ BS @ str ''subsubsection{Title} ''
        @ ARROW @ str '' ==== Title)''\<rparr>,
     \<lparr>pattern = BS @ BS @ str ''label'' @ BS @ str ''s*'' @ BS @ str ''{([^{}]+)'' @ BS @ str ''}'',
      replacement = str ''<'' @ BS @ str ''1>'',
      name = str ''label'',
      description = str ''Convert labels for cross-references ('' @ BS @ str ''label{ref} ''
        @ ARROW @ str '' <ref>)''\<rparr>,
     \<lparr>pattern = BS @ BS @ str ''ref'' @ BS @ str ''s*'' @ BS @ str ''{([^{}]+)'' @ BS @ str ''}'',
      replacement = str ''@'' @ BS @ str ''1'',
      name = str ''ref'',
      description = str ''Convert cross-references ('' @ BS @ str ''ref{label} ''
        @ ARROW @ str '' @label)''\<rparr>,
     \<lparr>pattern = BS @ BS @ str ''textcite'' @ BS @ str ''s*'' @ BS @ str ''{([^{}]+)'' @ BS @ str ''}'',
      replacement = str ''@'' @ BS @ str ''1'',
      name = str ''textcite'',
      description = str ''Convert textual citations ('' @ BS @ str ''textcite{key} ''
        @ ARROW @ str '' @key)''\<rparr>,
     \<lparr>pattern = BS @ BS @ str ''cite'' @ BS @ str ''s*'' @ BS @ str ''{([^{}]+)'' @ BS @ str ''}'',
      replacement = str ''@'' @ BS @ str ''1'',
      name = str ''cite'',
      description = str ''Convert parenthetical citations ('' @ BS @ str ''cite{key} ''
        @ ARROW @ str '' @key)''\<rparr>,
     \<lparr>pattern = BS @ BS @ str ''footnote'' @ BS @ str ''s*'' @ BS @ str ''{([^{}]+)'' @ BS @ str ''}'',
      replacement = str ''#footnote['' @ BS @ str ''1]'',
      name = str ''footnote'',
      description = str ''Convert footnotes ('' @ BS @ str ''footnote{text} ''
        @ ARROW @ str '' #footnote[text])''\<rparr>,
     \<lparr>pattern = BS @ BS @ str ''enquote'' @ BS @ str ''s*'' @ BS @ str ''{([^{}]+)'' @ BS @ str ''}'',
      replacement = str ''\"'' @ BS @ str ''1\"'',
      name = str ''enquote'',
      description = str ''Convert quoted text ('' @ BS @ str ''enquote{text} ''
        @ ARROW @ str '' \"text\")''\<rparr>,
     \<lparr>pattern = BS @ BS @ BS @ BS,
      replacement = BS @ BS,
      name = str ''double backslash'',
      description = str ''Convert line breaks (double backslash '' @ ARROW
        @ str '' single backslash)''\<rparr>,
     \<lparr>pattern = str ''(?m)^%'',
      replacement = str ''//'',
      name = str ''line comment'',
      description = str ''Convert LaTeX comments (% comment '' @ ARROW
        @ str '' // comment)''\<rparr>
   ]"

section \<open>The transformation engine (main.py)\<close>

text \<open>Python's \<open>str(n)\<close> for a count: the decimal digits of \<open>n\<close>.\<close>

fun decimal :: "nat \<Rightarrow> ustring" where
  "decimal n = (if n < 10 then [48 + n] else decimal (n div 10) @ [48 + n mod 10])"

declare decimal.simps [simp del]

text \<open>The line \<open>transform\<close> prints for a rule: \<open>f"[{rule.name}] {n} replacements"\<close>.\<close>

definition progress_line :: "ustring \<Rightarrow> nat \<Rightarrow> ustring" where
  "progress_line nm n = str ''['' @ nm @ str ''] '' @ decimal n @ str '' replacements''"

text \<open>
  The loop of \<open>transform\<close> over the rules, with the variable \<open>text\<close> and the lines
  printed so far as state. An exception of \<open>re.subn\<close> ends the call.
\<close>

fun transform_loop ::
  "ConversionRule list \<Rightarrow> ustring \<Rightarrow> bool \<Rightarrow> ustring list \<Rightarrow> error + (ustring \<times> ustring list)"
where
  "transform_loop [] text verbose printed = Inr (text, printed)"
| "transform_loop (rule # rules) text verbose printed =
     (case subn (pattern rule) (replacement rule) text of
        Inl e \<Rightarrow> Inl e
      | Inr (new_text, n) \<Rightarrow>
          transform_loop rules new_text verbose
            (if n \<noteq> 0 \<and> verbose then printed @ [progress_line (name rule) n] else printed))"

definition transform :: "ustring \<Rightarrow> bool \<Rightarrow> error + (ustring \<times> ustring list)" where
  "transform text verbose = transform_loop CONVERSION_RULES text verbose []"

text \<open>A rule's pattern has a match in a text when \<open>re.search\<close> finds one.\<close>

definition has_match :: "ConversionRule \<Rightarrow> ustring \<Rightarrow> bool" where
  "has_match rule s =
     (case search (pattern rule) s of
        Inl e \<Rightarrow> False
      | Inr None \<Rightarrow> False
      | Inr (Some st) \<Rightarrow> True)"

section \<open>The engine as the specification words it\<close>

text \<open>
  The specification describes a pass as one global substitution over the current text:
  all occurrences of the pattern are replaced, they do not overlap, and they are found
  from left to right. The relation \<open>global_sub\<close> says this without a scanning loop.

  \<open>match_at p prev s i\<close> is the match of the pattern that starts at position \<open>i\<close> of the
  text \<open>s\<close>, if there is one; the character before the position is the one the anchor of
  a multiline pattern looks at (\<open>prev\<close> stands before the text).
\<close>

definition char_before :: "nat option \<Rightarrow> ustring \<Rightarrow> nat \<Rightarrow> nat option" where
  "char_before prev s i = (if i = 0 then prev else Some (s ! (i - 1)))"

definition match_at :: "compiled \<Rightarrow> nat option \<Rightarrow> ustring \<Rightarrow> nat \<Rightarrow> mstate option" where
  "match_at p prev s i = match_here p False (char_before prev s i) (drop i s)"

text \<open>
  \<open>global_sub p t prev s out n\<close>: the text \<open>out\<close> is \<open>s\<close> with its \<open>n\<close> occurrences of the
  pattern \<open>p\<close> replaced by the expansions of the template \<open>t\<close>. Either the pattern matches
  at no position of \<open>s\<close>, and the text stays with count 0; or \<open>i\<close> is the leftmost
  position with a match, the text before \<open>i\<close> is kept, the occurrence (the non-empty text
  \<open>matched\<close>) is replaced by the expansion of the template with the captures of this
  match, and the substitution goes on in the text after the occurrence, so that no two
  occurrences overlap.
\<close>

inductive global_sub ::
  "compiled \<Rightarrow> titem list \<Rightarrow> nat option \<Rightarrow> ustring \<Rightarrow> ustring \<Rightarrow> nat \<Rightarrow> bool"
  for p :: compiled and t :: "titem list"
where
  no_more: "\<forall>i \<le> length s. match_at p prev s i = None \<Longrightarrow> global_sub p t prev s s 0"
| replace:
    "i \<le> length s \<Longrightarrow>
     \<forall>j < i. match_at p prev s j = None \<Longrightarrow>
     match_at p prev s i = Some (prev', rest', caps) \<Longrightarrow>
     drop i s = matched @ rest' \<Longrightarrow> matched \<noteq> [] \<Longrightarrow>
     global_sub p t prev' rest' out n \<Longrightarrow>
     global_sub p t prev s (take i s @ expand t caps @ out) (Suc n)"

text \<open>
  The fold of the specification over a list of rules, from a current text to the final
  text and the log: a pass is the global substitution of the rule's compiled pattern by
  its parsed replacement in the current text, its output is the current text of the next
  rule, and the pair of the rule's name and the count stands in the log, in the order of
  the rules, when the count is positive.
\<close>

inductive spec_run ::
  "ConversionRule list \<Rightarrow> ustring \<Rightarrow> ustring \<Rightarrow> (ustring \<times> nat) list \<Rightarrow> bool"
where
  finished: "spec_run [] current current []"
| pass:
    "compile (pattern rule) = Inr p \<Longrightarrow>
     parse_template (replacement rule) (groups p) = Inr t \<Longrightarrow>
     global_sub p t None current new_text count \<Longrightarrow>
     spec_run rules new_text final log \<Longrightarrow>
     spec_run (rule # rules) current final
       (if 0 < count then (name rule, count) # log else log)"

text \<open>The progress lines that stand for a log of pairs, as \<open>transform\<close> prints them.\<close>

definition printed_log :: "(ustring \<times> nat) list \<Rightarrow> ustring list" where
  "printed_log log = map (\<lambda>(nm, count). progress_line nm count) log"

text \<open>
  What the specification says of the double-backslash rule, as a function on texts: from
  left to right, each two consecutive backslashes become one backslash and count as one
  replacement; a backslash that has been consumed as the second of a pair does not start
  another pair, and every other character is kept.
\<close>

fun halve_backslashes :: "ustring \<Rightarrow> ustring \<times> nat" where
  "halve_backslashes [] = ([], 0)"
| "halve_backslashes [x] = ([x], 0)"
| "halve_backslashes (x # y # r) =
     (if x = 92 \<and> y = 92
      then (case halve_backslashes r of (out, n) \<Rightarrow> (92 # out, Suc n))
      else (case halve_backslashes (y # r) of (out, n) \<Rightarrow> (x # out, n)))"

section \<open>Structure of the engine\<close>

lemma transform_loop_verbose:
  "map_sum id fst (transform_loop rules buf v printed) =
   map_sum id fst (transform_loop rules buf v' printed')"
proof (induction rules arbitrary: buf printed printed')
  case Nil
  show ?case by simp
next
  case (Cons rule rules)
  show ?case
  proof (cases "subn (pattern rule) (replacement rule) buf")
    case (Inl e)
    then show ?thesis by simp
  next
    case (Inr r)
    obtain next_text n where r: "r = (next_text, n)"
      by (cases r)
    from Inr r have left: "transform_loop (rule # rules) buf v printed =
        transform_loop rules next_text v
          (if n \<noteq> 0 \<and> v then printed @ [progress_line (name rule) n] else printed)"
      by simp
    from Inr r have right: "transform_loop (rule # rules) buf v' printed' =
        transform_loop rules next_text v'
          (if n \<noteq> 0 \<and> v' then printed' @ [progress_line (name rule) n] else printed')"
      by simp
    show ?thesis
      unfolding left right by (rule Cons.IH)
  qed
qed

section \<open>What a pattern of the registry matches\<close>

text \<open>
  The registry has three shapes of pattern: a command with one argument in braces, the
  double backslash, and the percent sign at the start of a line. For each shape the
  backtracking engine is shown to compute a simple function of the text; the lemmas
  below are about the engine defined above and are used to evaluate \<open>transform\<close>.
\<close>

subsection \<open>Literal runs and greedy repeats\<close>

fun after_prefix :: "'a list \<Rightarrow> 'a list \<Rightarrow> 'a list option" where
  "after_prefix [] ys = Some ys"
| "after_prefix (x # xs) [] = None"
| "after_prefix (x # xs) (y # ys) = (if x = y then after_prefix xs ys else None)"

lemma match_seq_literals:
  "match_seq ml (map (\<lambda>c. ATOM (LITERAL c)) ls @ ns) (prev, rest, caps) =
     (case after_prefix ls rest of
        None \<Rightarrow> []
      | Some r \<Rightarrow> match_seq ml ns (if ls = [] then prev else Some (last ls), r, caps))"
proof (induction ls arbitrary: prev rest)
  case Nil
  show ?case by simp
next
  case (Cons c ls)
  show ?case
  proof (cases rest)
    case Nil
    then show ?thesis by simp
  next
    case (Cons x xs)
    then show ?thesis
      using Cons.IH [of "Some x" xs]
      by (auto split: option.splits)
  qed
qed

lemma concat_map_all_Nil: "(\<And>x. x \<in> set xs \<Longrightarrow> f x = []) \<Longrightarrow> concat (map f xs) = []"
  by (induction xs) auto

lemma atom_ignores_prev:
  "match_seq ml (ATOM b # ns) (p, r, c) = match_seq ml (ATOM b # ns) (p', r, c)"
  by simp

lemma atom_fails_inside_run:
  assumes disj: "\<forall>x. atom_ok a x \<longrightarrow> \<not> atom_ok b x"
    and i: "i < length (takeWhile (atom_ok a) rest)"
  shows "match_seq ml (ATOM b # ns) (p, drop i rest, caps) = []"
proof -
  from i have len: "i < length rest"
    using length_takeWhile_le [of "atom_ok a" rest] by simp
  from i have "atom_ok a (rest ! i)"
    using nth_mem [OF i] set_takeWhileD [of "rest ! i" "atom_ok a" rest] takeWhile_nth [OF i]
    by auto
  then have "\<not> atom_ok b (rest ! i)" using disj by simp
  moreover have "drop i rest = rest ! i # drop (Suc i) rest"
    using len by (simp add: Cons_nth_drop_Suc)
  ultimately show ?thesis by simp
qed

text \<open>Greedy alternatives \<open>W k, W (k-1), \<dots>, W mn\<close> of which only the longest can go on.\<close>

lemma only_longest:
  assumes dead: "\<And>i. i < k \<Longrightarrow> F i = []"
  shows "concat (map F (rev [mn ..< Suc k])) = (if mn \<le> k then F k else [])"
proof (cases "mn \<le> k")
  case True
  then have "rev [mn ..< Suc k] = k # rev [mn ..< k]" by simp
  moreover have "concat (map F (rev [mn ..< k])) = []"
    by (rule concat_map_all_Nil) (simp add: dead)
  ultimately show ?thesis using True by simp
next
  case False
  then show ?thesis by simp
qed

lemma repeat_then_atom:
  assumes disj: "\<forall>x. atom_ok a x \<longrightarrow> \<not> atom_ok b x"
  shows "match_seq ml (MAX_REPEAT mn a # ATOM b # ns) (prev, rest, caps) =
     (if mn \<le> length (takeWhile (atom_ok a) rest)
      then match_seq ml (ATOM b # ns) (None, dropWhile (atom_ok a) rest, caps)
      else [])"
proof -
  let ?k = "length (takeWhile (atom_ok a) rest)"
  let ?F = "\<lambda>i. match_seq ml (ATOM b # ns) (advance i (prev, rest, caps))"
  have unfold: "match_seq ml (MAX_REPEAT mn a # ATOM b # ns) (prev, rest, caps) =
      concat (map ?F (rev [mn ..< Suc ?k]))"
    by (simp only: match_seq.simps(2) [of ml "MAX_REPEAT mn a"] match_node.simps map_map comp_def)
  have dead: "?F i = []" if "i < ?k" for i
    using atom_fails_inside_run [OF disj that] by (simp only: advance_def prod.case)
  have last: "?F ?k = match_seq ml (ATOM b # ns) (None, dropWhile (atom_ok a) rest, caps)"
    by (simp only: advance_def prod.case dropWhile_eq_drop [symmetric])
       (rule atom_ignores_prev)
  note unfold
  also have "concat (map ?F (rev [mn ..< Suc ?k])) = (if mn \<le> ?k then ?F ?k else [])"
    by (rule only_longest) (rule dead)
  also have "\<dots> = (if mn \<le> ?k then match_seq ml (ATOM b # ns) (None, dropWhile (atom_ok a) rest, caps) else [])"
    by (simp only: last)
  finally show ?thesis .
qed

lemma group_repeat_then_atom:
  assumes disj: "\<forall>x. atom_ok a x \<longrightarrow> \<not> atom_ok b x"
  shows "match_seq ml (SUBPATTERN g [MAX_REPEAT mn a] # ATOM b # ns) (prev, rest, caps) =
     (if mn \<le> length (takeWhile (atom_ok a) rest)
      then match_seq ml (ATOM b # ns)
             (None, dropWhile (atom_ok a) rest, (g, takeWhile (atom_ok a) rest) # caps)
      else [])"
proof -
  let ?k = "length (takeWhile (atom_ok a) rest)"
  let ?W = "\<lambda>i. (if i = 0 then prev else Some (rest ! (i - 1)), drop i rest,
                 (g, take (length rest - length (drop i rest)) rest) # caps)"
  let ?F = "\<lambda>i. match_seq ml (ATOM b # ns) (?W i)"
  have k: "?k \<le> length rest"
    by (rule length_takeWhile_le)
  have node: "match_node ml (SUBPATTERN g [MAX_REPEAT mn a]) (prev, rest, caps) =
      map ?W (rev [mn ..< Suc ?k])"
    by (simp add: advance_def comp_def)
  have unfold: "match_seq ml (SUBPATTERN g [MAX_REPEAT mn a] # ATOM b # ns) (prev, rest, caps) =
      concat (map ?F (rev [mn ..< Suc ?k]))"
    by (simp only: match_seq.simps(2) [of ml "SUBPATTERN g [MAX_REPEAT mn a]"] node map_map comp_def)
  have dead: "?F i = []" if "i < ?k" for i
    by (rule atom_fails_inside_run [OF disj that])
  have "length rest - length (drop ?k rest) = ?k"
    using k by simp
  then have last: "?F ?k = match_seq ml (ATOM b # ns)
             (None, dropWhile (atom_ok a) rest, (g, takeWhile (atom_ok a) rest) # caps)"
    by (simp only: dropWhile_eq_drop [symmetric] takeWhile_eq_take [symmetric])
       (rule atom_ignores_prev)
  note unfold
  also have "concat (map ?F (rev [mn ..< Suc ?k])) = (if mn \<le> ?k then ?F ?k else [])"
    by (rule only_longest) (rule dead)
  also have "\<dots> = (if mn \<le> ?k then match_seq ml (ATOM b # ns) (None, dropWhile (atom_ok a) rest, (g, takeWhile (atom_ok a) rest) # caps) else [])"
    by (simp only: last)
  finally show ?thesis .
qed

subsection \<open>The three shapes\<close>

definition command_nodes :: "ustring \<Rightarrow> node list" where
  "command_nodes nm =
     map (\<lambda>c. ATOM (LITERAL c)) (92 # nm) @
     [MAX_REPEAT 0 CATEGORY_SPACE, ATOM (LITERAL 123),
      SUBPATTERN 1 [MAX_REPEAT 1 (CHARSET True [123, 125])], ATOM (LITERAL 125)]"

definition no_brace :: "nat \<Rightarrow> bool" where
  "no_brace x \<longleftrightarrow> x \<noteq> 123 \<and> x \<noteq> 125"

definition cmd_match :: "ustring \<Rightarrow> nat option \<Rightarrow> ustring \<Rightarrow> mstate option" where
  "cmd_match nm prev rest =
     (case after_prefix (92 # nm) rest of
        None \<Rightarrow> None
      | Some r1 \<Rightarrow>
          (case dropWhile is_space r1 of
             [] \<Rightarrow> None
           | b # r2 \<Rightarrow>
               if b = 123 then
                 (case dropWhile no_brace r2 of
                    [] \<Rightarrow> None
                  | e # r3 \<Rightarrow>
                      if e = 125 \<and> takeWhile no_brace r2 \<noteq> []
                      then Some (Some 125, r3, [(1, takeWhile no_brace r2)])
                      else None)
               else None))"

definition bs_match :: "nat option \<Rightarrow> ustring \<Rightarrow> mstate option" where
  "bs_match prev rest =
     (case rest of
        x # y # r \<Rightarrow> if x = 92 \<and> y = 92 then Some (Some 92, r, []) else None
      | _ \<Rightarrow> None)"

definition comment_match :: "nat option \<Rightarrow> ustring \<Rightarrow> mstate option" where
  "comment_match prev rest =
     (case rest of
        [] \<Rightarrow> None
      | x # r \<Rightarrow>
          if x = 37 \<and> (prev = None \<or> prev = Some 10) then Some (Some 37, r, []) else None)"

lemma atom_ok_no_brace: "atom_ok (CHARSET True [123, 125]) = no_brace"
  by (rule ext) (simp add: no_brace_def)

lemma atom_ok_space: "atom_ok CATEGORY_SPACE = is_space"
  by (rule ext) simp

lemma space_then_brace:
  "match_seq ml (MAX_REPEAT 0 CATEGORY_SPACE # ATOM (LITERAL 123) # ns) (prev, rest, caps) =
     (case dropWhile is_space rest of
        [] \<Rightarrow> []
      | b # r2 \<Rightarrow> if b = 123 then match_seq ml ns (Some 123, r2, caps) else [])"
proof -
  have disj: "\<forall>x. atom_ok CATEGORY_SPACE x \<longrightarrow> \<not> atom_ok (LITERAL 123) x"
    by (auto simp: is_space_def)
  have "match_seq ml (MAX_REPEAT 0 CATEGORY_SPACE # ATOM (LITERAL 123) # ns) (prev, rest, caps) =
      match_seq ml (ATOM (LITERAL 123) # ns) (None, dropWhile is_space rest, caps)"
    by (simp only: repeat_then_atom [OF disj] atom_ok_space le0 if_True)
  also have "\<dots> = (case dropWhile is_space rest of
        [] \<Rightarrow> []
      | b # r2 \<Rightarrow> if b = 123 then match_seq ml ns (Some 123, r2, caps) else [])"
    by (simp split: list.split del: dropWhile_eq_Nil_conv)
  finally show ?thesis .
qed

lemma arg_then_close:
  "match_seq ml [SUBPATTERN 1 [MAX_REPEAT 1 (CHARSET True [123, 125])], ATOM (LITERAL 125)]
     (prev, rest, caps) =
     (case dropWhile no_brace rest of
        [] \<Rightarrow> []
      | e # r3 \<Rightarrow>
          if e = 125 \<and> takeWhile no_brace rest \<noteq> []
          then [(Some 125, r3, (1, takeWhile no_brace rest) # caps)] else [])"
proof -
  have disj: "\<forall>x. atom_ok (CHARSET True [123, 125]) x \<longrightarrow> \<not> atom_ok (LITERAL 125) x"
    by auto
  have len: "(1 \<le> length (takeWhile no_brace rest)) = (takeWhile no_brace rest \<noteq> [])"
    by (cases "takeWhile no_brace rest") simp_all
  have "match_seq ml [SUBPATTERN 1 [MAX_REPEAT 1 (CHARSET True [123, 125])], ATOM (LITERAL 125)]
     (prev, rest, caps) =
      (if takeWhile no_brace rest \<noteq> []
       then match_seq ml [ATOM (LITERAL 125)]
              (None, dropWhile no_brace rest, (1, takeWhile no_brace rest) # caps)
       else [])"
    by (simp only: group_repeat_then_atom [OF disj] atom_ok_no_brace len)
  also have "\<dots> = (case dropWhile no_brace rest of
        [] \<Rightarrow> []
      | e # r3 \<Rightarrow>
          if e = 125 \<and> takeWhile no_brace rest \<noteq> []
          then [(Some 125, r3, (1, takeWhile no_brace rest) # caps)] else [])"
    by (simp split: list.split del: dropWhile_eq_Nil_conv)
  finally show ?thesis .
qed

lemma match_seq_command:
  "match_seq ml (command_nodes nm) (prev, rest, []) =
     (case cmd_match nm prev rest of None \<Rightarrow> [] | Some st \<Rightarrow> [st])"
proof (cases "after_prefix (92 # nm) rest")
  case None
  then show ?thesis
    by (simp only: command_nodes_def match_seq_literals cmd_match_def option.case)
next
  case (Some r1)
  have "match_seq ml (command_nodes nm) (prev, rest, []) =
      match_seq ml [MAX_REPEAT 0 CATEGORY_SPACE, ATOM (LITERAL 123),
        SUBPATTERN 1 [MAX_REPEAT 1 (CHARSET True [123, 125])], ATOM (LITERAL 125)]
        (Some (last (92 # nm)), r1, [])"
    using Some by (simp only: command_nodes_def match_seq_literals option.case list.distinct if_False)
  also have "\<dots> = (case dropWhile is_space r1 of
             [] \<Rightarrow> []
           | b # r2 \<Rightarrow>
               if b = 123 then
                 (case dropWhile no_brace r2 of
                    [] \<Rightarrow> []
                  | e # r3 \<Rightarrow>
                      if e = 125 \<and> takeWhile no_brace r2 \<noteq> []
                      then [(Some 125, r3, [(1, takeWhile no_brace r2)])]
                      else [])
               else [])"
    by (simp only: space_then_brace arg_then_close)
  also have "\<dots> = (case cmd_match nm prev rest of None \<Rightarrow> [] | Some st \<Rightarrow> [st])"
    using Some by (simp add: cmd_match_def split: list.split del: dropWhile_eq_Nil_conv)
  finally show ?thesis .
qed

lemma after_prefix_length:
  "after_prefix ls rest = Some r \<Longrightarrow> length rest = length ls + length r"
  by (induction ls rest rule: after_prefix.induct) (auto split: if_splits)

lemma cmd_match_shorter:
  assumes "cmd_match nm prev rest = Some (prev', rest', caps)"
  shows "length rest' < length rest"
proof -
  from assms obtain r1 b r2 e where
    r1: "after_prefix (92 # nm) rest = Some r1" and
    r2: "dropWhile is_space r1 = b # r2" and
    r3: "dropWhile no_brace r2 = e # rest'"
    by (auto simp: cmd_match_def split: option.splits list.splits if_splits)
  have "length rest' < length (dropWhile no_brace r2)" using r3 by simp
  also have "\<dots> \<le> length r2" by (rule length_dropWhile_le)
  also have "\<dots> < length (dropWhile is_space r1)" using r2 by simp
  also have "\<dots> \<le> length r1" by (rule length_dropWhile_le)
  also have "\<dots> \<le> length rest" using after_prefix_length [OF r1] by simp
  finally show ?thesis .
qed

lemma match_here_command:
  "match_here \<lparr>multiline = ml, groups = g, nodes = command_nodes nm\<rparr> ma prev rest =
     cmd_match nm prev rest"
proof (cases "cmd_match nm prev rest")
  case None
  then show ?thesis
    by (simp add: match_here_def match_seq_command)
next
  case (Some st)
  obtain prev' rest' caps where st: "st = (prev', rest', caps)"
    by (cases st)
  from Some st have "length rest' < length rest"
    by (auto dest: cmd_match_shorter)
  with Some st show ?thesis
    by (simp add: match_here_def match_seq_command)
qed

lemma match_here_double_backslash:
  "match_here \<lparr>multiline = ml, groups = g, nodes = [ATOM (LITERAL 92), ATOM (LITERAL 92)]\<rparr>
     ma prev rest = bs_match prev rest"
  by (cases rest; cases "tl rest") (auto simp: match_here_def bs_match_def)

lemma match_here_line_comment:
  "match_here \<lparr>multiline = True, groups = g, nodes = [AT_BEGINNING, ATOM (LITERAL 37)]\<rparr>
     ma prev rest = comment_match prev rest"
  by (cases rest) (auto simp: match_here_def comment_match_def)

subsection \<open>The scan as a loop with an accumulator\<close>

function scan_by ::
  "(nat option \<Rightarrow> ustring \<Rightarrow> mstate option) \<Rightarrow> titem list \<Rightarrow> nat option \<Rightarrow> ustring \<Rightarrow>
     ustring \<Rightarrow> nat \<Rightarrow> ustring \<times> nat"
where
  "scan_by m t prev [] out n = (out, n)"
| "scan_by m t prev (x # xs) out n =
     (case m prev (x # xs) of
        None \<Rightarrow> scan_by m t (Some x) xs (out @ [x]) n
      | Some (prev', rest', caps) \<Rightarrow>
          if length rest' < Suc (length xs)
          then scan_by m t prev' rest' (out @ expand t caps) (Suc n)
          else (out @ x # xs, n))"
  by pat_completeness auto
termination
  by (relation "measure (\<lambda>(m, t, prev, rest, out, n). length rest)") auto

lemma subn_scan_by:
  assumes m: "\<And>prev rest. match_here p False prev rest = m prev rest"
    and shorter: "\<And>prev rest prev' rest' caps.
        m prev rest = Some (prev', rest', caps) \<Longrightarrow> length rest' < length rest"
  shows "scan_by m t prev rest out n =
     (out @ fst (subn_scan p t prev rest), n + snd (subn_scan p t prev rest))"
proof (induction "length rest" arbitrary: prev rest out n rule: less_induct)
  case less
  show ?case
  proof (cases rest)
    case Nil
    have "m prev [] = None"
    proof (cases "m prev []")
      case (Some st)
      then show ?thesis using shorter [of prev "[]"] by (cases st) auto
    qed simp
    then have "match_here p False prev [] = None" using m by simp
    then have "subn_scan p t prev [] = ([], 0)"
      by (subst subn_scan.simps) simp
    with Nil show ?thesis by simp
  next
    case (Cons x xs)
    show ?thesis
    proof (cases "m prev (x # xs)")
      case None
      then have "match_here p False prev (x # xs) = None" using m by simp
      then have "subn_scan p t prev (x # xs) =
          (x # fst (subn_scan p t (Some x) xs), snd (subn_scan p t (Some x) xs))"
        by (subst subn_scan.simps) (simp add: case_prod_beta)
      with None Cons less [of xs "Some x" "out @ [x]" n] show ?thesis
        by simp
    next
      case (Some st)
      obtain prev' rest' caps where st: "st = (prev', rest', caps)"
        by (cases st)
      from Some st have len: "length rest' < Suc (length xs)"
        using shorter [of prev "x # xs" prev' rest' caps] by simp
      from Some st have "match_here p False prev (x # xs) = Some (prev', rest', caps)"
        using m by simp
      with len have "subn_scan p t prev (x # xs) =
          (expand t caps @ fst (subn_scan p t prev' rest'), Suc (snd (subn_scan p t prev' rest')))"
        by (subst subn_scan.simps) (simp add: case_prod_beta)
      with Some st len Cons less [of rest' prev' "out @ expand t caps" "Suc n"] show ?thesis
        by simp
    qed
  qed
qed

lemma subn_scan_eq_scan_by:
  assumes "\<And>prev rest. match_here p False prev rest = m prev rest"
    and "\<And>prev rest prev' rest' caps.
        m prev rest = Some (prev', rest', caps) \<Longrightarrow> length rest' < length rest"
  shows "subn_scan p t prev rest = scan_by m t prev rest [] 0"
  using subn_scan_by [of p m t prev rest "[]" 0, OF assms] by simp

subsection \<open>Compiling the patterns of the registry\<close>

definition command_pattern :: "ustring \<Rightarrow> ustring" where
  "command_pattern nm =
     BS @ BS @ nm @ BS @ str ''s*'' @ BS @ str ''{([^{}]+)'' @ BS @ str ''}''"

lemma letter_not_special:
  assumes "is_ascii_letter c"
  shows "c \<noteq> 92" "c \<noteq> 91" "c \<noteq> 40" "c \<noteq> 41" "c \<noteq> 42" "c \<noteq> 43" "c \<noteq> 94"
    "c \<noteq> 46" "c \<noteq> 63" "c \<noteq> 123" "c \<noteq> 36" "c \<noteq> 124"
  using assms by (auto simp: is_ascii_letter_def)

lemma parse_letters:
  "list_all is_ascii_letter nm \<Longrightarrow>
   parse (nm @ rest) ng stack cur =
     parse rest ng stack (rev (map (\<lambda>c. ATOM (LITERAL c)) nm) @ cur)"
proof (induction nm arbitrary: cur)
  case Nil
  show ?case by simp
next
  case (Cons c nm)
  then have c: "is_ascii_letter c" and nm: "list_all is_ascii_letter nm"
    by simp_all
  have "parse ((c # nm) @ rest) ng stack cur = parse (nm @ rest) ng stack (ATOM (LITERAL c) # cur)"
    using letter_not_special [OF c] by simp
  then show ?case
    using Cons.IH [OF nm, of "ATOM (LITERAL c) # cur"] by simp
qed

lemma parse_command_tail:
  "parse (BS @ str ''s*'' @ BS @ str ''{([^{}]+)'' @ BS @ str ''}'') 0 [] cur =
     Inr (1, rev cur @ [MAX_REPEAT 0 CATEGORY_SPACE, ATOM (LITERAL 123),
       SUBPATTERN 1 [MAX_REPEAT 1 (CHARSET True [123, 125])], ATOM (LITERAL 125)])"
  by (simp add: BS_def str_def parse_set_def is_ascii_letter_def is_digit_def)

lemma compile_command:
  assumes "list_all is_ascii_letter nm"
  shows "compile (command_pattern nm) =
     Inr \<lparr>multiline = False, groups = 1, nodes = command_nodes nm\<rparr>"
proof -
  let ?tail = "BS @ str ''s*'' @ BS @ str ''{([^{}]+)'' @ BS @ str ''}''"
  have "take 4 (command_pattern nm) \<noteq> [40, 63, 109, 41]"
    by (simp add: command_pattern_def BS_def)
  then have "compile (command_pattern nm) =
      (case parse (command_pattern nm) 0 [] [] of
         Inl e \<Rightarrow> Inl e
       | Inr (ng, ns) \<Rightarrow> Inr \<lparr>multiline = False, groups = ng, nodes = ns\<rparr>)"
    by (simp add: compile_def)
  moreover have "parse (command_pattern nm) 0 [] [] = parse (nm @ ?tail) 0 [] [ATOM (LITERAL 92)]"
    by (simp add: command_pattern_def BS_def is_ascii_letter_def is_digit_def)
  moreover have "\<dots> = Inr (1, command_nodes nm)"
    by (simp only: parse_letters [OF assms] parse_command_tail)
       (simp add: command_nodes_def)
  ultimately show ?thesis by simp
qed

lemma subn_command:
  assumes "list_all is_ascii_letter nm"
  shows "subn (command_pattern nm) repl s =
     (case parse_template repl 1 of
        Inl e \<Rightarrow> Inl e
      | Inr t \<Rightarrow> Inr (scan_by (cmd_match nm) t None s [] 0))"
  by (simp add: subn_def compile_command [OF assms]
        subn_scan_eq_scan_by [OF match_here_command cmd_match_shorter] split: sum.split)

lemma bs_match_shorter:
  "bs_match prev rest = Some (prev', rest', caps) \<Longrightarrow> length rest' < length rest"
  by (auto simp: bs_match_def split: list.splits if_splits)

lemma comment_match_shorter:
  "comment_match prev rest = Some (prev', rest', caps) \<Longrightarrow> length rest' < length rest"
  by (auto simp: comment_match_def split: list.splits if_splits)

lemma compile_double_backslash:
  "compile (BS @ BS @ BS @ BS) =
     Inr \<lparr>multiline = False, groups = 0, nodes = [ATOM (LITERAL 92), ATOM (LITERAL 92)]\<rparr>"
  by (simp add: compile_def BS_def is_ascii_letter_def is_digit_def)

lemma compile_line_comment:
  "compile (str ''(?m)^%'') =
     Inr \<lparr>multiline = True, groups = 0, nodes = [AT_BEGINNING, ATOM (LITERAL 37)]\<rparr>"
  by (simp add: compile_def str_def)

lemma subn_double_backslash:
  "subn (BS @ BS @ BS @ BS) repl s =
     (case parse_template repl 0 of
        Inl e \<Rightarrow> Inl e
      | Inr t \<Rightarrow> Inr (scan_by bs_match t None s [] 0))"
  by (simp add: subn_def compile_double_backslash
        subn_scan_eq_scan_by [OF match_here_double_backslash bs_match_shorter] split: sum.split)

lemma subn_line_comment:
  "subn (str ''(?m)^%'') repl s =
     (case parse_template repl 0 of
        Inl e \<Rightarrow> Inl e
      | Inr t \<Rightarrow> Inr (scan_by comment_match t None s [] 0))"
  by (simp add: subn_def compile_line_comment
        subn_scan_eq_scan_by [OF match_here_line_comment comment_match_shorter] split: sum.split)

subsection \<open>The registry as a list of scanners\<close>

fun apply_rules ::
  "(ustring \<times> (ustring \<Rightarrow> ustring \<times> nat)) list \<Rightarrow> ustring \<Rightarrow> bool \<Rightarrow> ustring list
     \<Rightarrow> ustring \<times> ustring list"
where
  "apply_rules [] s verbose printed = (s, printed)"
| "apply_rules ((nm, f) # fs) s verbose printed =
     (case f s of
        (s', n) \<Rightarrow>
          apply_rules fs s' verbose
            (if n \<noteq> 0 \<and> verbose then printed @ [progress_line nm n] else printed))"

definition command_rule :: "ustring \<Rightarrow> titem list \<Rightarrow> ustring \<times> (ustring \<Rightarrow> ustring \<times> nat)" where
  "command_rule nm t = (nm, \<lambda>s. scan_by (cmd_match nm) t None s [] 0)"

definition scanners :: "(ustring \<times> (ustring \<Rightarrow> ustring \<times> nat)) list" where
  "scanners = [
     command_rule (str ''glspl'') (map TLIT (str ''#glspl(\"'') @ [TGROUP 1] @ map TLIT (str ''\")'')),
     command_rule (str ''gls'') (map TLIT (str ''#gls(\"'') @ [TGROUP 1] @ map TLIT (str ''\")'')),
     command_rule (str ''textit'') (map TLIT (str ''_'') @ [TGROUP 1] @ map TLIT (str ''_'')),
     command_rule (str ''emph'') (map TLIT (str ''_'') @ [TGROUP 1] @ map TLIT (str ''_'')),
     command_rule (str ''textbf'') (map TLIT (str ''*'') @ [TGROUP 1] @ map TLIT (str ''*'')),
     command_rule (str ''chapter'') (map TLIT (str ''= '') @ [TGROUP 1]),
     command_rule (str ''section'') (map TLIT (str ''== '') @ [TGROUP 1]),
     command_rule (str ''subsection'') (map TLIT (str ''=== '') @ [TGROUP 1]),
     command_rule (str ''subsubsection'') (map TLIT (str ''==== '') @ [TGROUP 1]),
     command_rule (str ''label'') (map TLIT (str ''<'') @ [TGROUP 1] @ map TLIT (str ''>'')),
     command_rule (str ''ref'') (map TLIT (str ''@'') @ [TGROUP 1]),
     command_rule (str ''textcite'') (map TLIT (str ''@'') @ [TGROUP 1]),
     command_rule (str ''cite'') (map TLIT (str ''@'') @ [TGROUP 1]),
     command_rule (str ''footnote'') (map TLIT (str ''#footnote['') @ [TGROUP 1] @ map TLIT (str '']'')),
     command_rule (str ''enquote'') (map TLIT (str ''\"'') @ [TGROUP 1] @ map TLIT (str ''\"'')),
     (str ''double backslash'', \<lambda>s. scan_by bs_match [TLIT 92] None s [] 0),
     (str ''line comment'', \<lambda>s. scan_by comment_match (map TLIT (str ''//'')) None s [] 0)
   ]"

lemma transform_loop_apply_rules:
  "list_all2 (\<lambda>r (nm, f). name r = nm \<and> (\<forall>s. subn (pattern r) (replacement r) s = Inr (f s)))
     rules fs \<Longrightarrow>
   transform_loop rules s verbose printed = Inr (apply_rules fs s verbose printed)"
proof (induction rules fs arbitrary: s printed rule: list_all2_induct)
  case Nil
  show ?case by simp
next
  case (Cons r rules nf fs)
  obtain nm f where nf: "nf = (nm, f)" by (cases nf)
  with Cons.hyps have r: "name r = nm" "subn (pattern r) (replacement r) s = Inr (f s)"
    by simp_all
  obtain s' n where f: "f s = (s', n)" by (cases "f s")
  show ?case
    using r f nf Cons.IH by simp
qed

lemma registry_names_letters:
  "list_all is_ascii_letter (str ''glspl'')"
  "list_all is_ascii_letter (str ''gls'')"
  "list_all is_ascii_letter (str ''textit'')"
  "list_all is_ascii_letter (str ''emph'')"
  "list_all is_ascii_letter (str ''textbf'')"
  "list_all is_ascii_letter (str ''chapter'')"
  "list_all is_ascii_letter (str ''section'')"
  "list_all is_ascii_letter (str ''subsection'')"
  "list_all is_ascii_letter (str ''subsubsection'')"
  "list_all is_ascii_letter (str ''label'')"
  "list_all is_ascii_letter (str ''ref'')"
  "list_all is_ascii_letter (str ''textcite'')"
  "list_all is_ascii_letter (str ''cite'')"
  "list_all is_ascii_letter (str ''footnote'')"
  "list_all is_ascii_letter (str ''enquote'')"
  by (simp_all add: str_def is_ascii_letter_def)

lemma registry_templates:
  "parse_template (str ''#glspl(\"'' @ BS @ str ''1\")'') (Suc ng) =
     Inr (map TLIT (str ''#glspl(\"'') @ [TGROUP 1] @ map TLIT (str ''\")''))"
  "parse_template (str ''#gls(\"'' @ BS @ str ''1\")'') (Suc ng) =
     Inr (map TLIT (str ''#gls(\"'') @ [TGROUP 1] @ map TLIT (str ''\")''))"
  "parse_template (str ''_'' @ BS @ str ''1_'') (Suc ng) =
     Inr (map TLIT (str ''_'') @ [TGROUP 1] @ map TLIT (str ''_''))"
  "parse_template (str ''*'' @ BS @ str ''1*'') (Suc ng) =
     Inr (map TLIT (str ''*'') @ [TGROUP 1] @ map TLIT (str ''*''))"
  "parse_template (str ''= '' @ BS @ str ''1'') (Suc ng) = Inr (map TLIT (str ''= '') @ [TGROUP 1])"
  "parse_template (str ''== '' @ BS @ str ''1'') (Suc ng) = Inr (map TLIT (str ''== '') @ [TGROUP 1])"
  "parse_template (str ''=== '' @ BS @ str ''1'') (Suc ng) = Inr (map TLIT (str ''=== '') @ [TGROUP 1])"
  "parse_template (str ''==== '' @ BS @ str ''1'') (Suc ng) = Inr (map TLIT (str ''==== '') @ [TGROUP 1])"
  "parse_template (str ''<'' @ BS @ str ''1>'') (Suc ng) =
     Inr (map TLIT (str ''<'') @ [TGROUP 1] @ map TLIT (str ''>''))"
  "parse_template (str ''@'' @ BS @ str ''1'') (Suc ng) = Inr (map TLIT (str ''@'') @ [TGROUP 1])"
  "parse_template (str ''#footnote['' @ BS @ str ''1]'') (Suc ng) =
     Inr (map TLIT (str ''#footnote['') @ [TGROUP 1] @ map TLIT (str '']''))"
  "parse_template (str ''\"'' @ BS @ str ''1\"'') (Suc ng) =
     Inr (map TLIT (str ''\"'') @ [TGROUP 1] @ map TLIT (str ''\"''))"
  "parse_template (BS @ BS) ng = Inr [TLIT 92]"
  "parse_template (str ''//'') ng = Inr (map TLIT (str ''//''))"
  by (simp_all add: str_def BS_def is_digit_def)

lemma registry_scanners:
  "list_all2 (\<lambda>r (nm, f). name r = nm \<and> (\<forall>s. subn (pattern r) (replacement r) s = Inr (f s)))
     CONVERSION_RULES scanners"
  unfolding CONVERSION_RULES_def scanners_def command_rule_def
  by (simp add: command_pattern_def [symmetric] subn_command registry_names_letters
      registry_templates subn_double_backslash subn_line_comment)

lemma transform_scanners: "transform s verbose = Inr (apply_rules scanners s verbose [])"
  unfolding transform_def by (rule transform_loop_apply_rules [OF registry_scanners])

subsection \<open>Evaluating a scan\<close>

text \<open>
  Every pattern of the registry starts with a fixed character, so a scan can jump to
  the next occurrence of that character.
\<close>

lemma scan_by_skip:
  assumes key: "\<forall>prev x xs. x \<noteq> c \<longrightarrow> m prev (x # xs) = None"
  shows "\<forall>x\<in>set u. x \<noteq> c \<Longrightarrow>
     scan_by m t prev (u @ v) out n =
       scan_by m t (if u = [] then prev else Some (last u)) v (out @ u) n"
proof (induction u arbitrary: prev out)
  case Nil
  show ?case by simp
next
  case (Cons x u)
  then have "m prev (x # u @ v) = None"
    by (simp add: key)
  then have "scan_by m t prev ((x # u) @ v) out n = scan_by m t (Some x) (u @ v) (out @ [x]) n"
    by simp
  also have "\<dots> = scan_by m t (if u = [] then Some x else Some (last u)) v ((out @ [x]) @ u) n"
    using Cons.prems by (intro Cons.IH) simp
  finally show ?case by simp
qed

lemma scan_by_jump:
  assumes key: "\<forall>prev x xs. x \<noteq> c \<longrightarrow> m prev (x # xs) = None"
  shows "scan_by m t prev s out n =
     (case dropWhile (\<lambda>x. x \<noteq> c) s of
        [] \<Rightarrow> (out @ s, n)
      | b # w \<Rightarrow>
          (case m (if takeWhile (\<lambda>x. x \<noteq> c) s = [] then prev
                   else Some (last (takeWhile (\<lambda>x. x \<noteq> c) s))) (b # w) of
             None \<Rightarrow> scan_by m t (Some b) w (out @ takeWhile (\<lambda>x. x \<noteq> c) s @ [b]) n
           | Some (prev', rest', caps) \<Rightarrow>
               if length rest' < Suc (length w)
               then scan_by m t prev' rest' (out @ takeWhile (\<lambda>x. x \<noteq> c) s @ expand t caps) (Suc n)
               else (out @ s, n)))"
proof -
  define u where "u = takeWhile (\<lambda>x. x \<noteq> c) s"
  define v where "v = dropWhile (\<lambda>x. x \<noteq> c) s"
  have s: "s = u @ v"
    by (simp add: u_def v_def)
  have "\<forall>x\<in>set u. x \<noteq> c"
    by (auto simp: u_def dest: set_takeWhileD)
  then have step: "scan_by m t prev (u @ v) out n =
      scan_by m t (if u = [] then prev else Some (last u)) v (out @ u) n"
    by (rule scan_by_skip [OF key])
  have "scan_by m t prev s out n =
     (case v of
        [] \<Rightarrow> (out @ s, n)
      | b # w \<Rightarrow>
          (case m (if u = [] then prev else Some (last u)) (b # w) of
             None \<Rightarrow> scan_by m t (Some b) w (out @ u @ [b]) n
           | Some (prev', rest', caps) \<Rightarrow>
               if length rest' < Suc (length w)
               then scan_by m t prev' rest' (out @ u @ expand t caps) (Suc n)
               else (out @ s, n)))"
  proof (cases v)
    case Nil
    with step s show ?thesis by simp
  next
    case (Cons b w)
    with step s show ?thesis
      by (simp split: option.split)
  qed
  then show ?thesis
    unfolding u_def v_def .
qed

lemma cmd_match_key: "\<forall>prev x xs. x \<noteq> 92 \<longrightarrow> cmd_match nm prev (x # xs) = None"
  by (simp add: cmd_match_def)

lemma bs_match_key: "\<forall>prev x xs. x \<noteq> 92 \<longrightarrow> bs_match prev (x # xs) = None"
  by (simp add: bs_match_def split: list.split)

lemma comment_match_key: "\<forall>prev x xs. x \<noteq> 37 \<longrightarrow> comment_match prev (x # xs) = None"
  by (simp add: comment_match_def)

lemmas scan_command = scan_by_jump [where m = "cmd_match nm" and c = 92, OF cmd_match_key] for nm
lemmas scan_double_backslash = scan_by_jump [where m = bs_match and c = 92, OF bs_match_key]
lemmas scan_line_comment = scan_by_jump [where m = comment_match and c = 37, OF comment_match_key]

declare scan_by.simps [simp del]

lemma decimal_digit: "n < 10 \<Longrightarrow> decimal n = [48 + n]"
  by (simp add: decimal.simps)

lemmas eval_simps = transform_scanners scanners_def command_rule_def
  scan_command scan_double_backslash scan_line_comment
  cmd_match_def bs_match_def comment_match_def no_brace_def is_space_def
  str_def BS_def NL_def progress_line_def decimal_digit

subsection \<open>Group references of the templates\<close>

text \<open>
  The group references of a replacement template, read off the template string: a
  backslash followed by a digit from 1 to 9. They are the groups of the parsed template.
\<close>

fun template_refs :: "ustring \<Rightarrow> nat list" where
  "template_refs [] = []"
| "template_refs [c] = []"
| "template_refs (c # d # cs) =
     (if c = 92 then
        (if 49 \<le> d \<and> d \<le> 57 then (d - 48) # template_refs cs else template_refs cs)
      else template_refs (d # cs))"

fun group_items :: "titem list \<Rightarrow> nat list" where
  "group_items [] = []"
| "group_items (TLIT c # ts) = group_items ts"
| "group_items (TGROUP g # ts) = g # group_items ts"

lemma parse_template_refs:
  "parse_template tmpl ng = Inr t \<Longrightarrow> group_items t = template_refs tmpl"
proof (induction tmpl ng arbitrary: t rule: parse_template.induct)
  case (1 ng)
  then show ?case by simp
next
  case (2 c ng)
  then show ?case by (auto split: if_splits)
next
  case (3 c d cs ng)
  show ?case
  proof (cases "c = 92")
    case False
    with "3.prems" obtain t' where t': "parse_template (d # cs) ng = Inr t'" "t = TLIT c # t'"
      by (cases "parse_template (d # cs) ng") auto
    with False "3.IH"(3) [of t'] show ?thesis by simp
  next
    case True
    show ?thesis
    proof (cases "d = 92")
      case d: True
      with True "3.prems" obtain t' where t': "parse_template cs ng = Inr t'" "t = TLIT 92 # t'"
        by (cases "parse_template cs ng") auto
      with True d "3.IH"(1) [of t'] show ?thesis by simp
    next
      case d: False
      with True "3.prems" have digit: "49 \<le> d \<and> d \<le> 57"
        and nodigit: "\<not> (case cs of [] \<Rightarrow> False | e # es \<Rightarrow> is_digit e)"
        and inrange: "\<not> ng < d - 48"
        by (auto split: if_splits)
      with True d "3.prems" obtain t' where
        t': "parse_template cs ng = Inr t'" "t = TGROUP (d - 48) # t'"
        by (cases "parse_template cs ng") auto
      with True d digit nodigit inrange "3.IH"(2) [of t'] show ?thesis by simp
    qed
  qed
qed

lemma registry_template_refs:
  "template_refs (str ''#glspl(\"'' @ BS @ str ''1\")'') = [1]"
  "template_refs (str ''#gls(\"'' @ BS @ str ''1\")'') = [1]"
  "template_refs (str ''_'' @ BS @ str ''1_'') = [1]"
  "template_refs (str ''*'' @ BS @ str ''1*'') = [1]"
  "template_refs (str ''= '' @ BS @ str ''1'') = [1]"
  "template_refs (str ''== '' @ BS @ str ''1'') = [1]"
  "template_refs (str ''=== '' @ BS @ str ''1'') = [1]"
  "template_refs (str ''==== '' @ BS @ str ''1'') = [1]"
  "template_refs (str ''<'' @ BS @ str ''1>'') = [1]"
  "template_refs (str ''@'' @ BS @ str ''1'') = [1]"
  "template_refs (str ''#footnote['' @ BS @ str ''1]'') = [1]"
  "template_refs (str ''\"'' @ BS @ str ''1\"'') = [1]"
  "template_refs (BS @ BS) = []"
  "template_refs (str ''//'') = []"
  by (simp_all add: str_def BS_def)

definition self_consistent :: "ConversionRule \<Rightarrow> bool" where
  "self_consistent rule =
     (case compile (pattern rule) of
        Inl e \<Rightarrow> False
      | Inr p \<Rightarrow> list_all (\<lambda>g. 1 \<le> g \<and> g \<le> groups p) (template_refs (replacement rule)))"

lemma registry_self_consistent: "list_all self_consistent CONVERSION_RULES"
  unfolding CONVERSION_RULES_def self_consistent_def
  by (simp add: command_pattern_def [symmetric] compile_command registry_names_letters
      registry_template_refs compile_double_backslash compile_line_comment)

subsection \<open>Texts in which no rule matches\<close>

lemma subn_scan_no_match:
  "search_scan p prev s = None \<Longrightarrow> subn_scan p t prev s = (s, 0)"
proof (induction s arbitrary: prev)
  case Nil
  then show ?case
    by (subst subn_scan.simps) simp
next
  case (Cons x xs)
  from Cons.prems have here: "match_here p False prev (x # xs) = None"
    and later: "search_scan p (Some x) xs = None"
    by (auto split: option.splits)
  from Cons.IH [OF later] here show ?case
    by (subst subn_scan.simps) simp
qed

lemma registry_subn_total:
  assumes "rule \<in> set CONVERSION_RULES"
  shows "\<exists>r. subn (pattern rule) (replacement rule) s = Inr r"
proof -
  from assms obtain i where i: "i < length CONVERSION_RULES" "rule = CONVERSION_RULES ! i"
    by (auto simp: in_set_conv_nth)
  from registry_scanners i(1) have
    "(\<lambda>r (nm, f). name r = nm \<and> (\<forall>s. subn (pattern r) (replacement r) s = Inr (f s)))
       (CONVERSION_RULES ! i) (scanners ! i)"
    by (rule list_all2_nthD)
  with i(2) show ?thesis
    by (cases "scanners ! i") auto
qed

lemma subn_no_match:
  assumes rule: "rule \<in> set CONVERSION_RULES" and no: "\<not> has_match rule s"
  shows "subn (pattern rule) (replacement rule) s = Inr (s, 0)"
proof -
  from registry_subn_total [OF rule] obtain r where
    r: "subn (pattern rule) (replacement rule) s = Inr r" ..
  then obtain p t where p: "compile (pattern rule) = Inr p"
    and t: "parse_template (replacement rule) (groups p) = Inr t"
    and scan: "r = subn_scan p t None s"
    by (auto simp: subn_def split: sum.splits)
  from no p have "search_scan p None s = None"
    by (auto simp: has_match_def search_def split: option.splits)
  then have "subn_scan p t None s = (s, 0)"
    by (rule subn_scan_no_match)
  with r scan show ?thesis by simp
qed

lemma transform_loop_no_match:
  assumes "set rules \<subseteq> set CONVERSION_RULES" "\<forall>rule \<in> set rules. \<not> has_match rule s"
  shows "transform_loop rules s verbose printed = Inr (s, printed)"
  using assms
proof (induction rules)
  case Nil
  show ?case by simp
next
  case (Cons rule rules)
  then have "subn (pattern rule) (replacement rule) s = Inr (s, 0)"
    by (intro subn_no_match) auto
  with Cons show ?case by simp
qed

lemma search_scan_key:
  assumes m: "\<forall>prev rest. match_here p False prev rest = m prev rest"
    and key: "\<forall>prev x xs. x \<noteq> c \<longrightarrow> m prev (x # xs) = None"
    and empty: "\<forall>prev. m prev [] = None"
  shows "c \<notin> set s \<Longrightarrow> search_scan p prev s = None"
  using m key empty by (induction s arbitrary: prev) simp_all

lemma no_match_command:
  "92 \<notin> set s \<Longrightarrow>
   search_scan \<lparr>multiline = ml, groups = g, nodes = command_nodes nm\<rparr> prev s = None"
proof (rule search_scan_key [where m = "cmd_match nm" and c = 92])
  show "\<forall>prev rest. match_here \<lparr>multiline = ml, groups = g, nodes = command_nodes nm\<rparr>
      False prev rest = cmd_match nm prev rest"
    by (simp add: match_here_command)
  show "\<forall>prev x xs. x \<noteq> 92 \<longrightarrow> cmd_match nm prev (x # xs) = None"
    by (rule cmd_match_key)
  show "\<forall>prev. cmd_match nm prev [] = None"
    by (simp add: cmd_match_def)
qed

lemma no_match_double_backslash:
  "92 \<notin> set s \<Longrightarrow>
   search_scan \<lparr>multiline = ml, groups = g, nodes = [ATOM (LITERAL 92), ATOM (LITERAL 92)]\<rparr>
     prev s = None"
proof (rule search_scan_key [where m = bs_match and c = 92])
  show "\<forall>prev rest. match_here
      \<lparr>multiline = ml, groups = g, nodes = [ATOM (LITERAL 92), ATOM (LITERAL 92)]\<rparr>
      False prev rest = bs_match prev rest"
    by (simp add: match_here_double_backslash)
  show "\<forall>prev x xs. x \<noteq> 92 \<longrightarrow> bs_match prev (x # xs) = None"
    by (rule bs_match_key)
  show "\<forall>prev. bs_match prev [] = None"
    by (simp add: bs_match_def)
qed

lemma no_match_line_comment:
  "37 \<notin> set s \<Longrightarrow>
   search_scan \<lparr>multiline = True, groups = g, nodes = [AT_BEGINNING, ATOM (LITERAL 37)]\<rparr>
     prev s = None"
proof (rule search_scan_key [where m = comment_match and c = 37])
  show "\<forall>prev rest. match_here
      \<lparr>multiline = True, groups = g, nodes = [AT_BEGINNING, ATOM (LITERAL 37)]\<rparr>
      False prev rest = comment_match prev rest"
    by (simp add: match_here_line_comment)
  show "\<forall>prev x xs. x \<noteq> 37 \<longrightarrow> comment_match prev (x # xs) = None"
    by (rule comment_match_key)
  show "\<forall>prev. comment_match prev [] = None"
    by (simp add: comment_match_def)
qed

lemma registry_no_match:
  assumes "92 \<notin> set s" "37 \<notin> set s"
  shows "list_all (\<lambda>rule. \<not> has_match rule s) CONVERSION_RULES"
  unfolding CONVERSION_RULES_def has_match_def search_def
  using assms
  by (simp add: command_pattern_def [symmetric] compile_command registry_names_letters
      compile_double_backslash compile_line_comment
      no_match_command no_match_double_backslash no_match_line_comment)

subsection \<open>A fragment that no rule can consume\<close>

text \<open>
  The command \<open>\textbf{a{b}c}\<close> has a brace inside its argument. A scan keeps it when
  no match that starts before it reaches into it (or, for the double backslash, when the
  replacement restores its first character), and no match starts inside it.
\<close>

lemma scan_by_out_prefix: "\<exists>out' k. scan_by m t prev s out n = (out @ out', k)"
proof (induction "length s" arbitrary: prev s out n rule: less_induct)
  case less
  show ?case
  proof (cases s)
    case Nil
    then show ?thesis by (simp add: scan_by.simps)
  next
    case (Cons x xs)
    show ?thesis
    proof (cases "m prev (x # xs)")
      case None
      from less [of xs "Some x" "out @ [x]" n] Cons obtain out' k where
        "scan_by m t (Some x) xs (out @ [x]) n = ((out @ [x]) @ out', k)"
        by auto
      with None Cons show ?thesis
        by (simp add: scan_by.simps)
    next
      case (Some st)
      obtain prev' rest' caps where st: "st = (prev', rest', caps)"
        by (cases st)
      show ?thesis
      proof (cases "length rest' < Suc (length xs)")
        case True
        with less [of rest' prev' "out @ expand t caps" "Suc n"] Cons obtain out' k where
          "scan_by m t prev' rest' (out @ expand t caps) (Suc n) = ((out @ expand t caps) @ out', k)"
          by auto
        with Some st True Cons show ?thesis
          by (simp add: scan_by.simps)
      next
        case False
        with Some st Cons show ?thesis
          by (simp add: scan_by.simps)
      qed
    qed
  qed
qed

lemma fragment_survives_scan:
  assumes key: "\<forall>prev x xs. x \<noteq> c \<longrightarrow> m prev (x # xs) = None"
    and tail: "\<forall>x\<in>set ftail. x \<noteq> c"
    and barrier: "\<forall>prev u p' r' caps.
        m prev (u @ c0 # ftail @ post) = Some (p', r', caps) \<longrightarrow>
          (\<exists>u'. r' = u' @ c0 # ftail @ post \<and> length u' < length u) \<or>
          (r' = ftail @ post \<and> expand t caps = [c0])"
  shows "\<exists>pre' post' k.
     scan_by m t prev (u @ c0 # ftail @ post) out n = (out @ pre' @ c0 # ftail @ post', k)"
proof (induction "length u" arbitrary: prev u out n rule: less_induct)
  case less
  have after_tail: "\<exists>post' k. scan_by m t p (ftail @ post) out1 j = (out1 @ ftail @ post', k)"
    for p out1 j
  proof -
    from scan_by_skip [OF key tail, of t p post out1 j]
    have "scan_by m t p (ftail @ post) out1 j =
        scan_by m t (if ftail = [] then p else Some (last ftail)) post (out1 @ ftail) j" .
    moreover from scan_by_out_prefix
    obtain out' k where "scan_by m t (if ftail = [] then p else Some (last ftail)) post
        (out1 @ ftail) j = ((out1 @ ftail) @ out', k)"
      by blast
    ultimately show ?thesis by simp
  qed
  let ?T = "u @ c0 # ftail @ post"
  obtain x xs where T: "?T = x # xs"
    by (cases ?T) auto
  show ?case
  proof (cases "m prev ?T")
    case None
    show ?thesis
    proof (cases u)
      case Nil
      with T have x: "x = c0" "xs = ftail @ post" by simp_all
      from after_tail [of "Some c0" "out @ [c0]" n] obtain post' k where
        "scan_by m t (Some c0) (ftail @ post) (out @ [c0]) n = ((out @ [c0]) @ ftail @ post', k)"
        by blast
      with None Nil have "scan_by m t prev ?T out n = (out @ [] @ c0 # ftail @ post', k)"
        by (simp add: scan_by.simps)
      then show ?thesis by blast
    next
      case (Cons y u1)
      from less [of u1 "Some y" "out @ [y]" n] Cons obtain pre' post' k where
        "scan_by m t (Some y) (u1 @ c0 # ftail @ post) (out @ [y]) n =
           ((out @ [y]) @ pre' @ c0 # ftail @ post', k)"
        by auto
      with None Cons have "scan_by m t prev ?T out n = (out @ (y # pre') @ c0 # ftail @ post', k)"
        by (simp add: scan_by.simps)
      then show ?thesis by blast
    qed
  next
    case (Some st)
    obtain p' r' caps where st: "st = (p', r', caps)"
      by (cases st)
    from Some st barrier have
      "(\<exists>u'. r' = u' @ c0 # ftail @ post \<and> length u' < length u) \<or>
       (r' = ftail @ post \<and> expand t caps = [c0])"
      by blast
    then show ?thesis
    proof
      assume "\<exists>u'. r' = u' @ c0 # ftail @ post \<and> length u' < length u"
      then obtain u' where u': "r' = u' @ c0 # ftail @ post" "length u' < length u"
        by blast
      then have len: "length r' < Suc (length xs)"
        using T by (metis add_less_cancel_right length_Cons length_append)
      from less [of u' p' "out @ expand t caps" "Suc n"] u' obtain pre' post' k where
        "scan_by m t p' r' (out @ expand t caps) (Suc n) =
           ((out @ expand t caps) @ pre' @ c0 # ftail @ post', k)"
        by auto
      with Some st len T have
        "scan_by m t prev ?T out n = (out @ (expand t caps @ pre') @ c0 # ftail @ post', k)"
        by (simp add: scan_by.simps)
      then show ?thesis by blast
    next
      assume second: "r' = ftail @ post \<and> expand t caps = [c0]"
      then have len: "length r' < Suc (length xs)"
        using T by (metis length_Cons length_append less_Suc_eq trans_less_add2 append_Cons)
      from after_tail [of p' "out @ [c0]" "Suc n"] obtain post' k where
        "scan_by m t p' (ftail @ post) (out @ [c0]) (Suc n) = ((out @ [c0]) @ ftail @ post', k)"
        by blast
      with Some st len T second have
        "scan_by m t prev ?T out n = (out @ [] @ c0 # ftail @ post', k)"
        by (simp add: scan_by.simps)
      then show ?thesis by blast
    qed
  qed
qed

definition nested_tail :: ustring where
  "nested_tail = str ''textbf{a{b}c}''"

lemma nested_tail_chars: "\<forall>x\<in>set nested_tail. x \<noteq> 92" "\<forall>x\<in>set nested_tail. x \<noteq> 37"
  by (simp_all add: nested_tail_def str_def)

lemma after_prefix_within:
  "after_prefix ls (u0 @ c # w) = Some r \<Longrightarrow> c \<notin> set ls \<Longrightarrow>
   \<exists>u1. r = u1 @ c # w \<and> length u1 \<le> length u0"
proof (induction ls arbitrary: u0)
  case Nil
  then show ?case by auto
next
  case (Cons l ls)
  show ?case
  proof (cases u0)
    case Nil
    with Cons.prems show ?thesis by (simp split: if_splits)
  next
    case (Cons y u0')
    with Cons.prems Cons.IH [of u0'] show ?thesis
      by (auto split: if_splits)
  qed
qed

lemma cmd_match_parts:
  assumes "cmd_match nm prev rest = Some (p', r', caps)"
  obtains r1 r2 where "after_prefix (92 # nm) rest = Some r1"
    "dropWhile is_space r1 = 123 # r2" "dropWhile no_brace r2 = 125 # r'"
proof -
  from assms obtain r1 where r1: "after_prefix (92 # nm) rest = Some r1"
    by (cases "after_prefix (92 # nm) rest") (simp_all add: cmd_match_def)
  define d1 where "d1 = dropWhile is_space r1"
  from assms r1 obtain r2 where r2: "d1 = 123 # r2"
    by (cases d1) (auto simp: cmd_match_def d1_def [symmetric] split: if_splits)
  define d2 where "d2 = dropWhile no_brace r2"
  from assms r1 r2 have "d2 = 125 # r'"
    by (cases d2) (auto simp: cmd_match_def d1_def [symmetric] d2_def [symmetric] split: if_splits)
  with r1 r2 that show ?thesis
    by (simp add: d1_def d2_def)
qed

lemma cmd_barrier:
  assumes nm: "92 \<notin> set nm"
    and at_fragment: "cmd_match nm prev (92 # nested_tail @ post) = None"
    and match: "cmd_match nm prev (u @ 92 # nested_tail @ post) = Some (p', r', caps)"
  shows "\<exists>u'. r' = u' @ 92 # nested_tail @ post \<and> length u' < length u"
proof -
  let ?F = "92 # nested_tail @ post"
  have F_space: "dropWhile is_space ?F = ?F"
    by (simp add: is_space_def)
  have F_brace: "\<exists>w. dropWhile no_brace ?F = 123 # w"
    by (simp add: nested_tail_def str_def no_brace_def)
  from match obtain r1 r2 where
    r1: "after_prefix (92 # nm) (u @ ?F) = Some r1" and
    r2: "dropWhile is_space r1 = 123 # r2" and
    r3: "dropWhile no_brace r2 = 125 # r'"
    by (rule cmd_match_parts)
  from at_fragment match obtain y u0 where u: "u = y # u0"
    by (cases u) auto
  with r1 have "after_prefix nm (u0 @ ?F) = Some r1"
    by (simp split: if_splits)
  from after_prefix_within [OF this nm] obtain u1 where
    u1: "r1 = u1 @ ?F" "length u1 \<le> length u0"
    by blast
  have "\<exists>x\<in>set u1. \<not> is_space x"
  proof (rule ccontr)
    assume "\<not> (\<exists>x\<in>set u1. \<not> is_space x)"
    then have "dropWhile is_space (u1 @ ?F) = dropWhile is_space ?F"
      by (intro dropWhile_append2) simp
    with r2 u1 F_space show False by simp
  qed
  then obtain x where "x \<in> set u1" "\<not> is_space x" by blast
  then have "dropWhile is_space (u1 @ ?F) = dropWhile is_space u1 @ ?F"
    by (rule dropWhile_append1)
  with r2 u1 obtain u2 where u2: "r2 = u2 @ ?F" "length u2 \<le> length u1"
    using length_dropWhile_le [of is_space u1]
    by (cases "dropWhile is_space u1") (auto simp del: dropWhile_eq_Nil_conv)
  have "\<exists>x\<in>set u2. \<not> no_brace x"
  proof (rule ccontr)
    assume "\<not> (\<exists>x\<in>set u2. \<not> no_brace x)"
    then have "dropWhile no_brace (u2 @ ?F) = dropWhile no_brace ?F"
      by (intro dropWhile_append2) simp
    with r3 u2 F_brace show False by simp
  qed
  then obtain x where "x \<in> set u2" "\<not> no_brace x" by blast
  then have "dropWhile no_brace (u2 @ ?F) = dropWhile no_brace u2 @ ?F"
    by (rule dropWhile_append1)
  with r3 u2 obtain u3 where u3: "r' = u3 @ ?F" "length u3 \<le> length u2"
    using length_dropWhile_le [of no_brace u2]
    by (cases "dropWhile no_brace u2") (auto simp del: dropWhile_eq_Nil_conv)
  from u u1 u2 u3 show ?thesis by auto
qed

lemma bs_barrier:
  assumes "bs_match prev (u @ 92 # nested_tail @ post) = Some (p', r', caps)"
  shows "(\<exists>u'. r' = u' @ 92 # nested_tail @ post \<and> length u' < length u) \<or>
         (r' = nested_tail @ post \<and> expand [TLIT 92] caps = [92])"
proof (cases u)
  case Nil
  with assms show ?thesis
    by (simp add: bs_match_def nested_tail_def str_def)
next
  case (Cons a u1)
  show ?thesis
  proof (cases u1)
    case Nil
    with Cons assms show ?thesis
      by (auto simp: bs_match_def split: if_splits)
  next
    case (Cons b u2)
    with \<open>u = a # u1\<close> assms show ?thesis
      by (auto simp: bs_match_def split: if_splits)
  qed
qed

lemma comment_barrier:
  assumes "comment_match prev (u @ 92 # nested_tail @ post) = Some (p', r', caps)"
  shows "\<exists>u'. r' = u' @ 92 # nested_tail @ post \<and> length u' < length u"
  using assms by (cases u) (auto simp: comment_match_def split: if_splits)

definition keeps_fragment :: "(ustring \<Rightarrow> ustring \<times> nat) \<Rightarrow> bool" where
  "keeps_fragment f \<longleftrightarrow>
     (\<forall>pre post. \<exists>pre' post'.
        fst (f (pre @ 92 # nested_tail @ post)) = pre' @ 92 # nested_tail @ post')"

lemma command_rule_keeps_fragment:
  assumes nm: "92 \<notin> set nm"
    and at_fragment: "\<forall>prev post. cmd_match nm prev (92 # nested_tail @ post) = None"
  shows "keeps_fragment (snd (command_rule nm t))"
  unfolding keeps_fragment_def command_rule_def snd_conv
proof (intro allI)
  fix pre post
  have "\<exists>pre' post' k. scan_by (cmd_match nm) t None (pre @ 92 # nested_tail @ post) [] 0 =
      ([] @ pre' @ 92 # nested_tail @ post', k)"
  proof (rule fragment_survives_scan [where c = 92])
    show "\<forall>prev x xs. x \<noteq> 92 \<longrightarrow> cmd_match nm prev (x # xs) = None"
      by (rule cmd_match_key)
    show "\<forall>x\<in>set nested_tail. x \<noteq> 92"
      by (rule nested_tail_chars)
    show "\<forall>prev u p' r' caps.
        cmd_match nm prev (u @ 92 # nested_tail @ post) = Some (p', r', caps) \<longrightarrow>
          (\<exists>u'. r' = u' @ 92 # nested_tail @ post \<and> length u' < length u) \<or>
          (r' = nested_tail @ post \<and> expand t caps = [92])"
      using cmd_barrier [OF nm] at_fragment by blast
  qed
  then obtain pre' post' k where
    "scan_by (cmd_match nm) t None (pre @ 92 # nested_tail @ post) [] 0 = (pre' @ 92 # nested_tail @ post', k)"
    by auto
  then have "fst (scan_by (cmd_match nm) t None (pre @ 92 # nested_tail @ post) [] 0) =
      pre' @ 92 # nested_tail @ post'"
    by simp
  then show "\<exists>pre' post'.
      fst (scan_by (cmd_match nm) t None (pre @ 92 # nested_tail @ post) [] 0) =
        pre' @ 92 # nested_tail @ post'"
    by blast
qed

lemma double_backslash_keeps_fragment:
  "keeps_fragment (\<lambda>s. scan_by bs_match [TLIT 92] None s [] 0)"
  unfolding keeps_fragment_def
proof (intro allI)
  fix pre post
  have "\<exists>pre' post' k. scan_by bs_match [TLIT 92] None (pre @ 92 # nested_tail @ post) [] 0 =
      ([] @ pre' @ 92 # nested_tail @ post', k)"
  proof (rule fragment_survives_scan [where c = 92])
    show "\<forall>prev x xs. x \<noteq> 92 \<longrightarrow> bs_match prev (x # xs) = None"
      by (rule bs_match_key)
    show "\<forall>x\<in>set nested_tail. x \<noteq> 92"
      by (rule nested_tail_chars)
    show "\<forall>prev u p' r' caps.
        bs_match prev (u @ 92 # nested_tail @ post) = Some (p', r', caps) \<longrightarrow>
          (\<exists>u'. r' = u' @ 92 # nested_tail @ post \<and> length u' < length u) \<or>
          (r' = nested_tail @ post \<and> expand [TLIT 92] caps = [92])"
      using bs_barrier by blast
  qed
  then obtain pre' post' k where
    "scan_by bs_match [TLIT 92] None (pre @ 92 # nested_tail @ post) [] 0 = (pre' @ 92 # nested_tail @ post', k)"
    by auto
  then have "fst (scan_by bs_match [TLIT 92] None (pre @ 92 # nested_tail @ post) [] 0) =
      pre' @ 92 # nested_tail @ post'"
    by simp
  then show "\<exists>pre' post'.
      fst (scan_by bs_match [TLIT 92] None (pre @ 92 # nested_tail @ post) [] 0) =
        pre' @ 92 # nested_tail @ post'"
    by blast
qed

lemma line_comment_keeps_fragment:
  "keeps_fragment (\<lambda>s. scan_by comment_match t None s [] 0)"
  unfolding keeps_fragment_def
proof (intro allI)
  fix pre post
  have "\<exists>pre' post' k. scan_by comment_match t None (pre @ 92 # nested_tail @ post) [] 0 =
      ([] @ pre' @ 92 # nested_tail @ post', k)"
  proof (rule fragment_survives_scan [where c = 37])
    show "\<forall>prev x xs. x \<noteq> 37 \<longrightarrow> comment_match prev (x # xs) = None"
      by (rule comment_match_key)
    show "\<forall>x\<in>set nested_tail. x \<noteq> 37"
      by (rule nested_tail_chars)
    show "\<forall>prev u p' r' caps.
        comment_match prev (u @ 92 # nested_tail @ post) = Some (p', r', caps) \<longrightarrow>
          (\<exists>u'. r' = u' @ 92 # nested_tail @ post \<and> length u' < length u) \<or>
          (r' = nested_tail @ post \<and> expand t caps = [92])"
      using comment_barrier by blast
  qed
  then obtain pre' post' k where
    "scan_by comment_match t None (pre @ 92 # nested_tail @ post) [] 0 = (pre' @ 92 # nested_tail @ post', k)"
    by auto
  then have "fst (scan_by comment_match t None (pre @ 92 # nested_tail @ post) [] 0) =
      pre' @ 92 # nested_tail @ post'"
    by simp
  then show "\<exists>pre' post'.
      fst (scan_by comment_match t None (pre @ 92 # nested_tail @ post) [] 0) =
        pre' @ 92 # nested_tail @ post'"
    by blast
qed

lemma letters_no_backslash: "list_all is_ascii_letter nm \<Longrightarrow> 92 \<notin> set nm"
  by (auto simp: list_all_iff is_ascii_letter_def)

lemma registry_names_at_fragment:
  "cmd_match (str ''glspl'') prev (92 # nested_tail @ post) = None"
  "cmd_match (str ''gls'') prev (92 # nested_tail @ post) = None"
  "cmd_match (str ''textit'') prev (92 # nested_tail @ post) = None"
  "cmd_match (str ''emph'') prev (92 # nested_tail @ post) = None"
  "cmd_match (str ''textbf'') prev (92 # nested_tail @ post) = None"
  "cmd_match (str ''chapter'') prev (92 # nested_tail @ post) = None"
  "cmd_match (str ''section'') prev (92 # nested_tail @ post) = None"
  "cmd_match (str ''subsection'') prev (92 # nested_tail @ post) = None"
  "cmd_match (str ''subsubsection'') prev (92 # nested_tail @ post) = None"
  "cmd_match (str ''label'') prev (92 # nested_tail @ post) = None"
  "cmd_match (str ''ref'') prev (92 # nested_tail @ post) = None"
  "cmd_match (str ''textcite'') prev (92 # nested_tail @ post) = None"
  "cmd_match (str ''cite'') prev (92 # nested_tail @ post) = None"
  "cmd_match (str ''footnote'') prev (92 # nested_tail @ post) = None"
  "cmd_match (str ''enquote'') prev (92 # nested_tail @ post) = None"
  by (simp_all add: cmd_match_def nested_tail_def str_def is_space_def no_brace_def)

lemma scanners_keep_fragment: "list_all (\<lambda>(nm, f). keeps_fragment f) scanners"
  unfolding scanners_def
  by (simp add: case_prod_beta command_rule_keeps_fragment letters_no_backslash
      registry_names_letters registry_names_at_fragment double_backslash_keeps_fragment
      line_comment_keeps_fragment)

lemma fragment_survives_rules:
  "list_all (\<lambda>(nm, f). keeps_fragment f) fs \<Longrightarrow>
   \<exists>pre' post' printed'.
     apply_rules fs (pre @ 92 # nested_tail @ post) verbose printed =
       (pre' @ 92 # nested_tail @ post', printed')"
proof (induction fs arbitrary: pre post printed)
  case Nil
  show ?case by (simp, (rule exI)+, rule refl)
next
  case (Cons nf fs)
  obtain nm f where nf: "nf = (nm, f)" by (cases nf)
  with Cons.prems have f: "keeps_fragment f" and fs: "list_all (\<lambda>(nm, f). keeps_fragment f) fs"
    by simp_all
  obtain s' n where s': "f (pre @ 92 # nested_tail @ post) = (s', n)"
    by (cases "f (pre @ 92 # nested_tail @ post)")
  from f obtain pre1 post1 where
    "fst (f (pre @ 92 # nested_tail @ post)) = pre1 @ 92 # nested_tail @ post1"
    unfolding keeps_fragment_def by blast
  with s' have "s' = pre1 @ 92 # nested_tail @ post1" by simp
  with Cons.IH [OF fs, of pre1 post1] nf s' show ?case
    by simp
qed

subsection \<open>A pass is the global substitution\<close>

text \<open>
  The scan of \<open>subn\<close> computes the global substitution: whatever \<open>global_sub\<close> relates
  to a text is what the scan returns, and for a pattern that matches no empty text the
  scan's result is related to the text.
\<close>

lemma match_at_0: "match_at p prev s 0 = match_here p False prev s"
  by (simp add: match_at_def char_before_def)

lemma match_at_Suc: "match_at p prev (x # xs) (Suc j) = match_at p (Some x) xs j"
  by (simp add: match_at_def char_before_def nth_Cons')

lemma subn_scan_Nil_None:
  "match_here p False prev [] = None \<Longrightarrow> subn_scan p t prev [] = ([], 0)"
  by (subst subn_scan.simps) simp

lemma subn_scan_Cons_None:
  "match_here p False prev (x # xs) = None \<Longrightarrow>
   subn_scan p t prev (x # xs) =
     (x # fst (subn_scan p t (Some x) xs), snd (subn_scan p t (Some x) xs))"
  by (subst subn_scan.simps) (simp add: case_prod_beta)

lemma subn_scan_Some:
  "match_here p False prev s = Some (prev', rest', caps) \<Longrightarrow> length rest' < length s \<Longrightarrow>
   subn_scan p t prev s =
     (expand t caps @ fst (subn_scan p t prev' rest'), Suc (snd (subn_scan p t prev' rest')))"
  by (subst subn_scan.simps) (simp add: case_prod_beta)

lemma subn_scan_skip:
  "i \<le> length s \<Longrightarrow> \<forall>j < i. match_at p prev s j = None \<Longrightarrow>
   subn_scan p t prev s =
     (take i s @ fst (subn_scan p t (char_before prev s i) (drop i s)),
      snd (subn_scan p t (char_before prev s i) (drop i s)))"
proof (induction s arbitrary: prev i)
  case Nil
  then show ?case by (simp add: char_before_def)
next
  case (Cons x xs)
  show ?case
  proof (cases i)
    case 0
    then show ?thesis by (simp add: char_before_def)
  next
    case (Suc i')
    with Cons.prems have here: "match_here p False prev (x # xs) = None"
      using match_at_0 [of p prev "x # xs"] by auto
    from Suc Cons.prems have later: "\<forall>j < i'. match_at p (Some x) xs j = None"
      using match_at_Suc [of p prev x xs] by auto
    from Suc Cons.prems have "i' \<le> length xs" by simp
    from Cons.IH [OF this later]
    have "subn_scan p t (Some x) xs =
       (take i' xs @ fst (subn_scan p t (char_before (Some x) xs i') (drop i' xs)),
        snd (subn_scan p t (char_before (Some x) xs i') (drop i' xs)))" .
    moreover have "char_before prev (x # xs) (Suc i') = char_before (Some x) xs i'"
      by (simp add: char_before_def nth_Cons')
    ultimately show ?thesis
      using Suc by (simp add: subn_scan_Cons_None [OF here])
  qed
qed

lemma global_sub_is_scan:
  "global_sub p t prev s out n \<Longrightarrow> subn_scan p t prev s = (out, n)"
proof (induction rule: global_sub.induct)
  case (no_more s prev)
  then have "\<forall>j < length s. match_at p prev s j = None" by simp
  from subn_scan_skip [OF le_refl this]
  have "subn_scan p t prev s =
      (s @ fst (subn_scan p t (char_before prev s (length s)) []),
       snd (subn_scan p t (char_before prev s (length s)) []))"
    by simp
  moreover from no_more have "match_here p False (char_before prev s (length s)) [] = None"
    by (auto simp: match_at_def)
  ultimately show ?case
    by (simp add: subn_scan_Nil_None)
next
  case (replace i s prev prev' rest' caps matched out n)
  from replace.hyps have here:
    "match_here p False (char_before prev s i) (drop i s) = Some (prev', rest', caps)"
    by (simp add: match_at_def)
  from replace.hyps have "length rest' < length (drop i s)"
    by (cases matched) simp_all
  from subn_scan_skip [OF replace.hyps(1,2)] subn_scan_Some [OF here this] replace.IH
  show ?case by simp
qed

lemma global_sub_unique:
  "global_sub p t prev s out n \<Longrightarrow> global_sub p t prev s out' n' \<Longrightarrow> out' = out \<and> n' = n"
  using global_sub_is_scan [of p t prev s out n] global_sub_is_scan [of p t prev s out' n']
  by simp

lemma global_sub_shift:
  assumes "global_sub p t (Some x) xs out n" "match_here p False prev (x # xs) = None"
  shows "global_sub p t prev (x # xs) (x # out) n"
  using assms(1)
proof (cases rule: global_sub.cases)
  case no_more
  have "\<forall>i \<le> length (x # xs). match_at p prev (x # xs) i = None"
  proof (intro allI impI)
    fix i assume "i \<le> length (x # xs)"
    with no_more(3) assms(2) show "match_at p prev (x # xs) i = None"
      by (cases i) (simp_all add: match_at_0 match_at_Suc)
  qed
  then have "global_sub p t prev (x # xs) (x # xs) 0"
    by (rule global_sub.no_more)
  with no_more show ?thesis by simp
next
  case (replace i prev' rest' caps matched out1 n1)
  have before: "\<forall>j < Suc i. match_at p prev (x # xs) j = None"
  proof (intro allI impI)
    fix j assume "j < Suc i"
    with replace(4) assms(2) show "match_at p prev (x # xs) j = None"
      by (cases j) (simp_all add: match_at_0 match_at_Suc)
  qed
  have "global_sub p t prev (x # xs) (take (Suc i) (x # xs) @ expand t caps @ out1) (Suc n1)"
  proof (rule global_sub.replace)
    show "Suc i \<le> length (x # xs)" using replace(3) by simp
    show "\<forall>j < Suc i. match_at p prev (x # xs) j = None" by (rule before)
    show "match_at p prev (x # xs) (Suc i) = Some (prev', rest', caps)"
      using replace(5) by (simp add: match_at_Suc)
    show "drop (Suc i) (x # xs) = matched @ rest'" using replace(6) by simp
    show "matched \<noteq> []" by (rule replace(7))
    show "global_sub p t prev' rest' out1 n1" by (rule replace(8))
  qed
  with replace(1,2) show ?thesis by simp
qed

text \<open>A pattern that never matches the empty text.\<close>

definition never_empty :: "compiled \<Rightarrow> bool" where
  "never_empty p \<longleftrightarrow>
     (\<forall>prev rest prev' rest' caps.
        match_here p False prev rest = Some (prev', rest', caps) \<longrightarrow>
          (\<exists>matched. matched \<noteq> [] \<and> rest = matched @ rest'))"

lemma scan_is_global_sub:
  assumes ne: "never_empty p"
  shows "global_sub p t prev s (fst (subn_scan p t prev s)) (snd (subn_scan p t prev s))"
proof (induction "length s" arbitrary: prev s rule: less_induct)
  case less
  show ?case
  proof (cases "match_here p False prev s")
    case None
    show ?thesis
    proof (cases s)
      case Nil
      with None have "\<forall>i \<le> length s. match_at p prev s i = None"
        by (simp add: match_at_0)
      then have "global_sub p t prev s s 0" by (rule global_sub.no_more)
      with None Nil show ?thesis by (simp add: subn_scan_Nil_None)
    next
      case (Cons x xs)
      with less [of xs "Some x"] have
        "global_sub p t (Some x) xs (fst (subn_scan p t (Some x) xs)) (snd (subn_scan p t (Some x) xs))"
        by simp
      with None Cons have "global_sub p t prev (x # xs)
          (x # fst (subn_scan p t (Some x) xs)) (snd (subn_scan p t (Some x) xs))"
        by (intro global_sub_shift) simp_all
      with None Cons show ?thesis by (simp add: subn_scan_Cons_None)
    qed
  next
    case (Some st)
    obtain prev' rest' caps where st: "st = (prev', rest', caps)" by (cases st)
    with Some ne obtain matched where m: "matched \<noteq> []" "s = matched @ rest'"
      unfolding never_empty_def by blast
    then have len: "length rest' < length s" by (cases matched) simp_all
    from less [OF len, of prev'] have rec:
      "global_sub p t prev' rest' (fst (subn_scan p t prev' rest')) (snd (subn_scan p t prev' rest'))" .
    have "global_sub p t prev s
        (take 0 s @ expand t caps @ fst (subn_scan p t prev' rest'))
        (Suc (snd (subn_scan p t prev' rest')))"
    proof (rule global_sub.replace)
      show "0 \<le> length s" by simp
      show "\<forall>j < 0. match_at p prev s j = None" by simp
      show "match_at p prev s 0 = Some (prev', rest', caps)"
        using Some st by (simp add: match_at_0)
      show "drop 0 s = matched @ rest'" using m by simp
      show "matched \<noteq> []" by (rule m)
      show "global_sub p t prev' rest'
          (fst (subn_scan p t prev' rest')) (snd (subn_scan p t prev' rest'))" by (rule rec)
    qed
    with Some st len show ?thesis
      by (simp add: subn_scan_Some)
  qed
qed

lemma after_prefix_append: "after_prefix ls rest = Some r \<Longrightarrow> rest = ls @ r"
  by (induction ls rest rule: after_prefix.induct) (auto split: if_splits)

lemma cmd_match_consumes:
  assumes "cmd_match nm prev rest = Some (prev', rest', caps)"
  shows "\<exists>matched. matched \<noteq> [] \<and> rest = matched @ rest'"
proof -
  from assms obtain r1 r2 where
    r1: "after_prefix (92 # nm) rest = Some r1" and
    r2: "dropWhile is_space r1 = 123 # r2" and
    r3: "dropWhile no_brace r2 = 125 # rest'"
    by (rule cmd_match_parts)
  define matched where
    "matched = 92 # nm @ takeWhile is_space r1 @ 123 # takeWhile no_brace r2 @ [125]"
  have e1: "92 # nm @ r1 = rest"
    using after_prefix_append [OF r1] by simp
  have e2: "takeWhile is_space r1 @ 123 # r2 = r1"
    using r2 takeWhile_dropWhile_id [of is_space r1] by simp
  have e3: "takeWhile no_brace r2 @ 125 # rest' = r2"
    using r3 takeWhile_dropWhile_id [of no_brace r2] by simp
  have "matched @ rest' = rest"
    by (simp add: matched_def e3 e2 e1)
  moreover have "matched \<noteq> []"
    by (simp add: matched_def)
  ultimately show ?thesis by blast
qed

lemma never_empty_command:
  "never_empty \<lparr>multiline = ml, groups = g, nodes = command_nodes nm\<rparr>"
  unfolding never_empty_def match_here_command
proof (intro allI impI)
  fix prev rest prev' rest' caps
  assume "cmd_match nm prev rest = Some (prev', rest', caps)"
  then show "\<exists>matched. matched \<noteq> [] \<and> rest = matched @ rest'"
    by (rule cmd_match_consumes)
qed

lemma never_empty_double_backslash:
  "never_empty \<lparr>multiline = ml, groups = g, nodes = [ATOM (LITERAL 92), ATOM (LITERAL 92)]\<rparr>"
  unfolding never_empty_def match_here_double_backslash
proof (intro allI impI)
  fix prev rest prev' rest' caps
  assume "bs_match prev rest = Some (prev', rest', caps)"
  then have "rest = [92, 92] @ rest'"
    by (auto simp: bs_match_def split: list.splits if_splits)
  then show "\<exists>matched. matched \<noteq> [] \<and> rest = matched @ rest'" by blast
qed

lemma never_empty_line_comment:
  "never_empty \<lparr>multiline = True, groups = g, nodes = [AT_BEGINNING, ATOM (LITERAL 37)]\<rparr>"
  unfolding never_empty_def match_here_line_comment
proof (intro allI impI)
  fix prev rest prev' rest' caps
  assume "comment_match prev rest = Some (prev', rest', caps)"
  then have "rest = [37] @ rest'"
    by (auto simp: comment_match_def split: list.splits if_splits)
  then show "\<exists>matched. matched \<noteq> [] \<and> rest = matched @ rest'" by blast
qed

lemma registry_never_empty:
  "list_all (\<lambda>rule. case compile (pattern rule) of Inl e \<Rightarrow> False | Inr p \<Rightarrow> never_empty p)
     CONVERSION_RULES"
  unfolding CONVERSION_RULES_def
  by (simp add: command_pattern_def [symmetric] compile_command registry_names_letters
      compile_double_backslash compile_line_comment
      never_empty_command never_empty_double_backslash never_empty_line_comment)

lemma rule_never_empty:
  assumes rule: "rule \<in> set CONVERSION_RULES" and p: "compile (pattern rule) = Inr p"
  shows "never_empty p"
proof -
  from registry_never_empty have
    "\<forall>rule \<in> set CONVERSION_RULES.
       case compile (pattern rule) of Inl e \<Rightarrow> False | Inr p \<Rightarrow> never_empty p"
    unfolding list_all_iff .
  then have "case compile (pattern rule) of Inl e \<Rightarrow> False | Inr p \<Rightarrow> never_empty p"
    using rule by (rule bspec)
  then show ?thesis unfolding p by simp
qed

lemma rule_subn_parts:
  assumes rule: "rule \<in> set CONVERSION_RULES"
  shows "\<exists>p t. compile (pattern rule) = Inr p \<and>
     parse_template (replacement rule) (groups p) = Inr t \<and>
     subn (pattern rule) (replacement rule) current = Inr (subn_scan p t None current)"
proof -
  from registry_subn_total [OF rule] obtain r where
    r: "subn (pattern rule) (replacement rule) current = Inr r" ..
  then show ?thesis
    by (auto simp: subn_def split: sum.splits)
qed

lemma registry_pass_is_global_sub:
  assumes rule: "rule \<in> set CONVERSION_RULES"
  shows "\<exists>p t new_text count.
     compile (pattern rule) = Inr p \<and>
     parse_template (replacement rule) (groups p) = Inr t \<and>
     subn (pattern rule) (replacement rule) current = Inr (new_text, count) \<and>
     global_sub p t None current new_text count \<and>
     (\<forall>other count'. global_sub p t None current other count' \<longrightarrow>
        other = new_text \<and> count' = count)"
proof -
  from rule_subn_parts [OF rule] obtain p t where
    p: "compile (pattern rule) = Inr p" and
    t: "parse_template (replacement rule) (groups p) = Inr t" and
    r: "subn (pattern rule) (replacement rule) current = Inr (subn_scan p t None current)"
    by blast
  obtain new_text count where scan: "subn_scan p t None current = (new_text, count)"
    by (cases "subn_scan p t None current")
  from rule p have "never_empty p" by (rule rule_never_empty)
  then have "global_sub p t None current
      (fst (subn_scan p t None current)) (snd (subn_scan p t None current))"
    by (rule scan_is_global_sub)
  then have sub: "global_sub p t None current new_text count"
    unfolding scan by simp
  have unique: "\<forall>other count'. global_sub p t None current other count' \<longrightarrow>
      other = new_text \<and> count' = count"
  proof (intro allI impI)
    fix other count'
    assume "global_sub p t None current other count'"
    with sub show "other = new_text \<and> count' = count"
      by (rule global_sub_unique)
  qed
  from r have r': "subn (pattern rule) (replacement rule) current = Inr (new_text, count)"
    unfolding scan .
  show ?thesis
    using p t r' sub unique by (intro exI conjI)
qed

inductive_cases spec_run_NilE: "spec_run [] current final log"
inductive_cases spec_run_ConsE: "spec_run (rule # rules) current final log"

lemma spec_run_unique:
  "spec_run rules buf final log \<Longrightarrow> spec_run rules buf final' log' \<Longrightarrow>
   final' = final \<and> log' = log"
proof (induction arbitrary: final' log' rule: spec_run.induct)
  case (finished current)
  then show ?case by (auto elim: spec_run_NilE)
next
  case (pass rule p t current new_text count rules final log)
  from pass.prems obtain p' t' new_text' count' log2 where
    p': "compile (pattern rule) = Inr p'" and
    t': "parse_template (replacement rule) (groups p') = Inr t'" and
    sub': "global_sub p' t' None current new_text' count'" and
    run': "spec_run rules new_text' final' log2" and
    log': "log' = (if 0 < count' then (name rule, count') # log2 else log2)"
    by (rule spec_run_ConsE)
  from p' pass.hyps(1) have pp: "p' = p" by simp
  with t' pass.hyps(2) have tt: "t' = t" by simp
  from sub' have "global_sub p t None current new_text' count'"
    unfolding pp tt .
  with pass.hyps(3) have same: "new_text' = new_text \<and> count' = count"
    by (rule global_sub_unique)
  with run' have "spec_run rules new_text final' log2" by simp
  then have "final' = final \<and> log2 = log"
    by (rule pass.IH)
  with same log' show ?case by simp
qed

lemma transform_loop_spec_run:
  assumes "set rules \<subseteq> set CONVERSION_RULES"
  shows "\<exists>final log. spec_run rules buf final log \<and>
     transform_loop rules buf True printed = Inr (final, printed @ printed_log log)"
  using assms
proof (induction rules arbitrary: buf printed)
  case Nil
  have "spec_run [] buf buf []" by (rule spec_run.finished)
  moreover have "transform_loop [] buf True printed = Inr (buf, printed @ printed_log [])"
    by (simp add: printed_log_def)
  ultimately show ?case by blast
next
  case (Cons rule rules)
  then have rule: "rule \<in> set CONVERSION_RULES" and rules: "set rules \<subseteq> set CONVERSION_RULES"
    by simp_all
  from registry_pass_is_global_sub [OF rule, of buf] obtain p t new_text count where
    p: "compile (pattern rule) = Inr p" and
    t: "parse_template (replacement rule) (groups p) = Inr t" and
    r: "subn (pattern rule) (replacement rule) buf = Inr (new_text, count)" and
    sub: "global_sub p t None buf new_text count"
    by blast
  define printed' where
    "printed' = (if count \<noteq> 0 then printed @ [progress_line (name rule) count] else printed)"
  from Cons.IH [OF rules, of new_text printed'] obtain final log where
    run: "spec_run rules new_text final log" and
    loop: "transform_loop rules new_text True printed' = Inr (final, printed' @ printed_log log)"
    by blast
  from p t sub run have
    "spec_run (rule # rules) buf final (if 0 < count then (name rule, count) # log else log)"
    by (rule spec_run.pass)
  moreover from r loop have
    "transform_loop (rule # rules) buf True printed =
       Inr (final, printed @ printed_log (if 0 < count then (name rule, count) # log else log))"
    by (simp add: printed'_def printed_log_def)
  ultimately show ?case by blast
qed

subsection \<open>The progress line determines the name and the count\<close>

text \<open>The number that a string of decimal digits denotes.\<close>

definition digits_value :: "ustring \<Rightarrow> nat" where
  "digits_value ds = foldl (\<lambda>a d. 10 * a + (d - 48)) 0 ds"

lemma decimal_digits: "\<forall>d\<in>set (decimal n). is_digit d"
proof (induction n rule: decimal.induct)
  case (1 n)
  show ?case
  proof (cases "n < 10")
    case True
    then show ?thesis
      by (subst decimal.simps) (simp add: is_digit_def)
  next
    case False
    with 1 show ?thesis
      by (subst decimal.simps) (auto simp: is_digit_def)
  qed
qed

lemma digits_value_decimal: "digits_value (decimal n) = n"
proof (induction n rule: decimal.induct)
  case (1 n)
  show ?case
  proof (cases "n < 10")
    case True
    then show ?thesis
      by (subst decimal.simps) (simp add: digits_value_def)
  next
    case False
    with 1 have "digits_value (decimal (n div 10)) = n div 10"
      by simp
    with False show ?thesis
      by (subst decimal.simps) (simp add: digits_value_def)
  qed
qed

lemma decimal_inj: "decimal n = decimal n' \<Longrightarrow> n = n'"
  by (metis digits_value_decimal)

lemma digits_then_space:
  assumes "\<forall>d\<in>set ds. is_digit d"
  shows "takeWhile is_digit (rev ds @ 32 # w) = rev ds"
proof -
  have "\<not> is_digit 32" by (simp add: is_digit_def)
  then have "takeWhile is_digit (rev ds @ 32 # w) = takeWhile is_digit (rev ds)"
    by (rule takeWhile_tail)
  also have "\<dots> = rev ds"
    using assms by (simp add: takeWhile_eq_all_conv)
  finally show ?thesis .
qed

lemma progress_line_inj:
  assumes "progress_line nm n = progress_line nm' n'"
  shows "nm = nm' \<and> n = n'"
proof -
  from assms have eq: "nm @ [93, 32] @ decimal n = nm' @ [93, 32] @ decimal n'"
    by (simp add: progress_line_def str_def)
  then have "rev (nm @ [93, 32] @ decimal n) = rev (nm' @ [93, 32] @ decimal n')"
    by simp
  then have "rev (decimal n) @ 32 # 93 # rev nm = rev (decimal n') @ 32 # 93 # rev nm'"
    by simp
  then have "takeWhile is_digit (rev (decimal n) @ 32 # 93 # rev nm) =
      takeWhile is_digit (rev (decimal n') @ 32 # 93 # rev nm')"
    by simp
  then have "rev (decimal n) = rev (decimal n')"
    by (simp only: digits_then_space [OF decimal_digits])
  then have d: "decimal n = decimal n'" by simp
  then have "n = n'" by (rule decimal_inj)
  moreover from eq d have "nm = nm'" by simp
  ultimately show ?thesis by simp
qed

subsection \<open>The scan of the double-backslash rule\<close>

lemma scan_double_backslash_halves:
  "scan_by bs_match [TLIT 92] prev s out n =
     (out @ fst (halve_backslashes s), n + snd (halve_backslashes s))"
proof (induction s arbitrary: prev out n rule: halve_backslashes.induct)
  case 1
  show ?case by (simp add: scan_by.simps)
next
  case (2 x)
  show ?case by (simp add: scan_by.simps bs_match_def)
next
  case (3 x y r)
  show ?case
  proof (cases "x = 92 \<and> y = 92")
    case True
    then have m: "bs_match prev (x # y # r) = Some (Some 92, r, [])"
      by (simp add: bs_match_def)
    have "scan_by bs_match [TLIT 92] prev (x # y # r) out n =
        scan_by bs_match [TLIT 92] (Some 92) r (out @ [92]) (Suc n)"
      by (simp add: scan_by.simps m)
    also have "\<dots> = ((out @ [92]) @ fst (halve_backslashes r), Suc n + snd (halve_backslashes r))"
      using True by (rule "3.IH"(1))
    also have "\<dots> = (out @ fst (halve_backslashes (x # y # r)),
        n + snd (halve_backslashes (x # y # r)))"
      using True by (simp add: case_prod_beta)
    finally show ?thesis .
  next
    case False
    then have m: "bs_match prev (x # y # r) = None"
      by (simp add: bs_match_def)
    have "scan_by bs_match [TLIT 92] prev (x # y # r) out n =
        scan_by bs_match [TLIT 92] (Some x) (y # r) (out @ [x]) n"
      by (simp add: scan_by.simps m)
    also have "\<dots> = ((out @ [x]) @ fst (halve_backslashes (y # r)),
        n + snd (halve_backslashes (y # r)))"
      using False by (rule "3.IH"(2))
    also have "\<dots> = (out @ fst (halve_backslashes (x # y # r)),
        n + snd (halve_backslashes (x # y # r)))"
      using False by (auto simp: case_prod_beta)
    finally show ?thesis .
  qed
qed

lemma subn_double_backslash_halves:
  "subn (pattern (CONVERSION_RULES ! 15)) (replacement (CONVERSION_RULES ! 15)) s =
     Inr (halve_backslashes s)"
proof -
  have "pattern (CONVERSION_RULES ! 15) = BS @ BS @ BS @ BS"
    and "replacement (CONVERSION_RULES ! 15) = BS @ BS"
    by (simp_all add: CONVERSION_RULES_def)
  then show ?thesis
    by (simp add: subn_double_backslash registry_templates scan_double_backslash_halves)
qed

section \<open>Claims\<close>

text \<open>
  C1: for every input text, \<open>transform(text)\<close> is the fold of the specification over the
  registry. There is exactly one run of the fold from the text: starting with the text
  as current buffer, each rule in registry order performs one global substitution
  (all occurrences, non-overlapping, leftmost first) of its pattern by its replacement
  over the whole current buffer and hands its output to the next rule. \<open>transform\<close>
  returns the buffer after the last rule, and what it prints (the call's log, with the
  default \<open>verbose=True\<close>) is the progress lines of the pairs of rule name and count of
  exactly the rules whose count was positive, in registry order. A progress line
  determines the name and the count it was printed for.
\<close>

theorem C1_transform_is_fold:
  "\<exists>final log.
      spec_run CONVERSION_RULES text final log \<and>
      (\<forall>final' log'. spec_run CONVERSION_RULES text final' log' \<longrightarrow>
         final' = final \<and> log' = log) \<and>
      transform text True = Inr (final, printed_log log) \<and>
      (\<forall>nm n nm' n'. progress_line nm n = progress_line nm' n' \<longrightarrow> nm = nm' \<and> n = n')"
proof -
  from transform_loop_spec_run [OF subset_refl, of "text" "[]"] obtain final log where
    run: "spec_run CONVERSION_RULES text final log" and
    loop: "transform_loop CONVERSION_RULES text True [] = Inr (final, [] @ printed_log log)"
    by blast
  have unique: "\<forall>final' log'. spec_run CONVERSION_RULES text final' log' \<longrightarrow>
      final' = final \<and> log' = log"
  proof (intro allI impI)
    fix final' log'
    assume "spec_run CONVERSION_RULES text final' log'"
    with run show "final' = final \<and> log' = log"
      by (rule spec_run_unique)
  qed
  have lines: "\<forall>nm n nm' n'. progress_line nm n = progress_line nm' n' \<longrightarrow> nm = nm' \<and> n = n'"
    by (intro allI impI) (rule progress_line_inj)
  from loop have result: "transform text True = Inr (final, printed_log log)"
    by (simp add: transform_def)
  show ?thesis
    using run unique result lines by (intro exI conjI)
qed

text \<open>
  The theorem at the text \<open>\gls{a} and \gls{b}\<close>: the run of the fold ends with
  \<open>#gls("a") and #gls("b")\<close> and the log of the one pair of \<open>gls\<close> and 2, which is read
  back from the line that \<open>transform\<close> prints.
\<close>

theorem C1_transform_is_fold_witness:
  "spec_run CONVERSION_RULES (BS @ str ''gls{a} and '' @ BS @ str ''gls{b}'')
     (str ''#gls(\"a\") and #gls(\"b\")'') [(str ''gls'', 2)]
   \<and> transform (BS @ str ''gls{a} and '' @ BS @ str ''gls{b}'') True =
       Inr (str ''#gls(\"a\") and #gls(\"b\")'', [str ''[gls] 2 replacements''])"
proof -
  define input where "input = BS @ str ''gls{a} and '' @ BS @ str ''gls{b}''"
  define expected where "expected = str ''#gls(\"a\") and #gls(\"b\")''"
  from C1_transform_is_fold [of input] obtain final log where
    run: "spec_run CONVERSION_RULES input final log" and
    result: "transform input True = Inr (final, printed_log log)" and
    lines: "\<forall>nm n nm' n'. progress_line nm n = progress_line nm' n' \<longrightarrow> nm = nm' \<and> n = n'"
    by blast
  have computed: "transform input True = Inr (expected, [progress_line (str ''gls'') 2])"
    unfolding input_def expected_def
    by (simp add: eval_simps cong: prod.case_cong_weak)
  from result computed have final: "final = expected"
    and printed: "printed_log log = [progress_line (str ''gls'') 2]"
    by simp_all
  from printed obtain nm n where log: "log = [(nm, n)]"
    and line: "progress_line nm n = progress_line (str ''gls'') 2"
    by (cases log) (auto simp: printed_log_def)
  from lines line have "nm = str ''gls'' \<and> n = 2" by blast
  with log have "log = [(str ''gls'', 2)]" by simp
  with run final have "spec_run CONVERSION_RULES input expected [(str ''gls'', 2)]"
    by simp
  moreover have "[progress_line (str ''gls'') 2] = [str ''[gls] 2 replacements'']"
    by (simp add: progress_line_def decimal_digit str_def)
  ultimately show ?thesis
    using computed unfolding input_def expected_def by simp
qed

text \<open>
  C8: every rule of the registry is self-consistent: its pattern compiles, and every
  group reference in its replacement template names a group of the pattern (a number
  from 1 to the number of groups). The replacements of the double-backslash rule and of
  the line-comment rule (the last two rules) reference no group.
\<close>

theorem C8_rules_self_consistent:
  "(\<forall>rule \<in> set CONVERSION_RULES.
      \<exists>p. compile (pattern rule) = Inr p \<and>
          (\<forall>g \<in> set (template_refs (replacement rule)). 1 \<le> g \<and> g \<le> groups p))
   \<and> template_refs (replacement (CONVERSION_RULES ! 15)) = []
   \<and> template_refs (replacement (CONVERSION_RULES ! 16)) = []"
proof (intro conjI ballI)
  fix rule
  assume "rule \<in> set CONVERSION_RULES"
  with registry_self_consistent have "self_consistent rule"
    by (simp add: list_all_iff)
  then show "\<exists>p. compile (pattern rule) = Inr p \<and>
         (\<forall>g \<in> set (template_refs (replacement rule)). 1 \<le> g \<and> g \<le> groups p)"
    by (cases "compile (pattern rule)") (simp_all add: self_consistent_def list_all_iff)
next
  show "template_refs (replacement (CONVERSION_RULES ! 15)) = []"
    by (simp add: CONVERSION_RULES_def registry_template_refs)
next
  show "template_refs (replacement (CONVERSION_RULES ! 16)) = []"
    by (simp add: CONVERSION_RULES_def registry_template_refs)
qed

theorem C8_rules_self_consistent_witness:
  "\<exists>p. compile (pattern (hd CONVERSION_RULES)) = Inr p \<and>
       template_refs (replacement (hd CONVERSION_RULES)) = [1] \<and> 1 \<le> groups p"
proof -
  have mem: "hd CONVERSION_RULES \<in> set CONVERSION_RULES"
    by (simp add: CONVERSION_RULES_def)
  have refs: "template_refs (replacement (hd CONVERSION_RULES)) = [1]"
    by (simp add: CONVERSION_RULES_def registry_template_refs)
  from C8_rules_self_consistent mem obtain p where
    p: "compile (pattern (hd CONVERSION_RULES)) = Inr p"
      "\<forall>g \<in> set (template_refs (replacement (hd CONVERSION_RULES))). 1 \<le> g \<and> g \<le> groups p"
    by blast
  from p(2) refs have "1 \<le> groups p" by simp
  with p(1) refs show ?thesis by blast
qed

text \<open>
  C9: the string \<open>transform\<close> returns does not depend on the flag \<open>verbose\<close>: with
  \<open>verbose=True\<close> and with \<open>verbose=False\<close> the call returns the same string (or raises
  the same error); the flag decides only which progress lines are printed.
\<close>

theorem C9_result_independent_of_verbose:
  "map_sum id fst (transform text True) = map_sum id fst (transform text False)"
  unfolding transform_def by (rule transform_loop_verbose)

text \<open>
  C2: for the input \<open>\textcite{foo}\<close>, \<open>transform\<close> returns exactly \<open>@foo\<close>. The rule
  \<open>textcite\<close> stands before the rule \<open>cite\<close> in the registry and replaces the whole
  command: it is the only rule that reports a replacement, so \<open>cite\<close> matches nothing.
\<close>

theorem C2_textcite_before_cite:
  "transform (BS @ str ''textcite{foo}'') True =
     Inr (str ''@foo'', [str ''[textcite] 1 replacements''])
   \<and> map name CONVERSION_RULES ! 11 = str ''textcite''
   \<and> map name CONVERSION_RULES ! 12 = str ''cite''"
proof -
  have "transform (BS @ str ''textcite{foo}'') True =
     Inr (str ''@foo'', [str ''[textcite] 1 replacements''])"
    by (simp add: eval_simps cong: prod.case_cong_weak)
  moreover have "map name CONVERSION_RULES ! 11 = str ''textcite''"
    and "map name CONVERSION_RULES ! 12 = str ''cite''"
    by (simp_all add: CONVERSION_RULES_def)
  ultimately show ?thesis by simp
qed

text \<open>
  C3: whatever text stands before and after the fragment \<open>\textbf{a{b}c}\<close>, the
  output of \<open>transform\<close> still contains the fragment as it was. The argument pattern of
  the rule \<open>textbf\<close> admits no brace, so the rule's pattern has no match in the fragment,
  and the fragment alone is returned unchanged with no replacement reported.
\<close>

theorem C3_nested_braces_untouched:
  "(\<exists>pre' post' printed.
      transform (pre @ BS @ str ''textbf{a{b}c}'' @ post) verbose =
        Inr (pre' @ BS @ str ''textbf{a{b}c}'' @ post', printed))
   \<and> transform (BS @ str ''textbf{a{b}c}'') True = Inr (BS @ str ''textbf{a{b}c}'', [])
   \<and> has_match (CONVERSION_RULES ! 4) (BS @ str ''textbf{a{b}c}'') = False"
proof (intro conjI)
  from fragment_survives_rules [OF scanners_keep_fragment, of pre post verbose "[]"]
  show "\<exists>pre' post' printed.
      transform (pre @ BS @ str ''textbf{a{b}c}'' @ post) verbose =
        Inr (pre' @ BS @ str ''textbf{a{b}c}'' @ post', printed)"
    by (simp add: transform_scanners BS_def nested_tail_def)
next
  show "transform (BS @ str ''textbf{a{b}c}'') True = Inr (BS @ str ''textbf{a{b}c}'', [])"
    by (simp add: eval_simps cong: prod.case_cong_weak)
next
  have "pattern (CONVERSION_RULES ! 4) = command_pattern (str ''textbf'')"
    by (simp add: CONVERSION_RULES_def command_pattern_def)
  then have compiled: "compile (pattern (CONVERSION_RULES ! 4)) =
      Inr \<lparr>multiline = False, groups = 1, nodes = command_nodes (str ''textbf'')\<rparr>"
    by (simp add: compile_command registry_names_letters)
  show "has_match (CONVERSION_RULES ! 4) (BS @ str ''textbf{a{b}c}'') = False"
    by (simp add: has_match_def search_def compiled match_here_command no_match_command
        cmd_match_def BS_def str_def is_space_def no_brace_def)
qed

text \<open>
  C4: \<open>transform\<close> maps \<open>line one\<close>, two backslashes, a newline and \<open>line two\<close> to
  \<open>line one\<close>, one backslash, a newline and \<open>line two\<close>, and only the double-backslash
  rule reports a replacement. On every text the pass of the double-backslash rule
  replaces each non-overlapping occurrence of two consecutive backslashes, leftmost
  first, with a single backslash and counts the occurrences: it computes
  \<open>halve_backslashes\<close>. So a text with two occurrences, \<open>a\\b\\c\<close>, becomes \<open>a\b\c\<close>
  with 2 replacements.
\<close>

theorem C4_double_backslash_line_break:
  "transform (str ''line one'' @ BS @ BS @ NL @ str ''line two'') True =
     Inr (str ''line one'' @ BS @ NL @ str ''line two'',
          [str ''[double backslash] 1 replacements''])
   \<and> name (CONVERSION_RULES ! 15) = str ''double backslash''
   \<and> subn (pattern (CONVERSION_RULES ! 15)) (replacement (CONVERSION_RULES ! 15)) s =
       Inr (halve_backslashes s)
   \<and> halve_backslashes (str ''a'' @ BS @ BS @ str ''b'' @ BS @ BS @ str ''c'') =
       (str ''a'' @ BS @ str ''b'' @ BS @ str ''c'', 2)
   \<and> transform (str ''a'' @ BS @ BS @ str ''b'' @ BS @ BS @ str ''c'') True =
       Inr (str ''a'' @ BS @ str ''b'' @ BS @ str ''c'',
            [str ''[double backslash] 2 replacements''])"
proof -
  have "transform (str ''line one'' @ BS @ BS @ NL @ str ''line two'') True =
     Inr (str ''line one'' @ BS @ NL @ str ''line two'',
          [str ''[double backslash] 1 replacements''])"
    by (simp add: eval_simps cong: prod.case_cong_weak)
  moreover have "name (CONVERSION_RULES ! 15) = str ''double backslash''"
    by (simp add: CONVERSION_RULES_def)
  moreover have
    "subn (pattern (CONVERSION_RULES ! 15)) (replacement (CONVERSION_RULES ! 15)) s =
       Inr (halve_backslashes s)"
    by (rule subn_double_backslash_halves)
  moreover have "halve_backslashes (str ''a'' @ BS @ BS @ str ''b'' @ BS @ BS @ str ''c'') =
       (str ''a'' @ BS @ str ''b'' @ BS @ str ''c'', 2)"
    by (simp add: str_def BS_def)
  moreover have "transform (str ''a'' @ BS @ BS @ str ''b'' @ BS @ BS @ str ''c'') True =
       Inr (str ''a'' @ BS @ str ''b'' @ BS @ str ''c'',
            [str ''[double backslash] 2 replacements''])"
    by (simp add: eval_simps cong: prod.case_cong_weak)
  ultimately show ?thesis by (intro conjI)
qed

text \<open>
  C5: a text in which no rule's pattern has a match is returned unchanged by
  \<open>transform\<close>, with no progress line printed, and so it is when \<open>transform\<close> is
  applied to the result once more; in particular the empty string is mapped to the empty
  string with an empty log.
\<close>

theorem C5_no_match_unchanged:
  "((\<forall>rule \<in> set CONVERSION_RULES. \<not> has_match rule s) \<longrightarrow>
      transform s verbose = Inr (s, []) \<and>
      (case transform s verbose of
         Inl e \<Rightarrow> Inl e
       | Inr (once, printed) \<Rightarrow> transform once verbose) = Inr (s, []))
   \<and> transform [] verbose = Inr ([], [])"
proof (intro conjI impI)
  assume no: "\<forall>rule \<in> set CONVERSION_RULES. \<not> has_match rule s"
  then show once: "transform s verbose = Inr (s, [])"
    unfolding transform_def by (intro transform_loop_no_match) simp_all
  then show "(case transform s verbose of
         Inl e \<Rightarrow> Inl e
       | Inr (once, printed) \<Rightarrow> transform once verbose) = Inr (s, [])"
    by simp
next
  have "list_all (\<lambda>rule. \<not> has_match rule []) CONVERSION_RULES"
    by (rule registry_no_match) simp_all
  then have "\<forall>rule \<in> set CONVERSION_RULES. \<not> has_match rule []"
    by (simp add: list_all_iff)
  then show "transform [] verbose = Inr ([], [])"
    unfolding transform_def by (intro transform_loop_no_match) simp_all
qed

theorem C5_no_match_unchanged_witness:
  "list_all (\<lambda>rule. \<not> has_match rule (str ''Plain prose, 100 {percent} free of commands.''))
     CONVERSION_RULES
   \<and> transform (str ''Plain prose, 100 {percent} free of commands.'') True =
       Inr (str ''Plain prose, 100 {percent} free of commands.'', [])
   \<and> (case transform (str ''Plain prose, 100 {percent} free of commands.'') True of
         Inl e \<Rightarrow> Inl e
       | Inr (once, printed) \<Rightarrow> transform once True) =
       Inr (str ''Plain prose, 100 {percent} free of commands.'', [])"
proof -
  let ?s = "str ''Plain prose, 100 {percent} free of commands.''"
  have no: "list_all (\<lambda>rule. \<not> has_match rule ?s) CONVERSION_RULES"
    by (rule registry_no_match) (simp_all add: str_def)
  then have "\<forall>rule \<in> set CONVERSION_RULES. \<not> has_match rule ?s"
    by (simp add: list_all_iff)
  with C5_no_match_unchanged [of ?s True] no show ?thesis
    by blast
qed

text \<open>
  C6: \<open>transform\<close> is not idempotent: there is an input \<open>T\<close> (four backslashes) for
  which \<open>transform(transform(T))\<close> differs from \<open>transform(T)\<close>.
\<close>

theorem C6_not_idempotent:
  "\<exists>T t1 t2 printed1 printed2.
     transform T True = Inr (t1, printed1) \<and> transform t1 True = Inr (t2, printed2) \<and> t2 \<noteq> t1"
proof -
  have first: "transform (BS @ BS @ BS @ BS) True =
      Inr (BS @ BS, [str ''[double backslash] 2 replacements''])"
    by (simp add: eval_simps cong: prod.case_cong_weak)
  have second: "transform (BS @ BS) True = Inr (BS, [str ''[double backslash] 1 replacements''])"
    by (simp add: eval_simps cong: prod.case_cong_weak)
  have "BS \<noteq> BS @ BS"
    by (simp add: BS_def)
  with first second show ?thesis by blast
qed

text \<open>
  C7: \<open>transform\<close> is total: for every input text and either value of \<open>verbose\<close> it
  returns a string and raises no error; the scan of a rule that matches nowhere simply
  returns the text with the count zero.
\<close>

theorem C7_transform_total:
  "\<exists>out printed. transform s verbose = Inr (out, printed)"
  by (cases "apply_rules scanners s verbose []") (simp add: transform_scanners)

text \<open>
  C10: a comment line is not shielded from conversion. The line-comment rule is the last
  rule of the registry, so the command rules are applied to the content of a line that
  starts with a percent sign first, and only then the percent sign becomes \<open>//\<close>:
  \<open>%\section{X}\<close> becomes \<open>//== X\<close>.
\<close>

theorem C10_comment_lines_are_converted:
  "transform (str ''%'' @ BS @ str ''section{X}'') True =
     Inr (str ''//== X'',
          [str ''[section] 1 replacements'', str ''[line comment] 1 replacements''])
   \<and> name (last CONVERSION_RULES) = str ''line comment''"
proof -
  have "transform (str ''%'' @ BS @ str ''section{X}'') True =
     Inr (str ''//== X'',
          [str ''[section] 1 replacements'', str ''[line comment] 1 replacements''])"
    by (simp add: eval_simps cong: prod.case_cong_weak)
  moreover have "name (last CONVERSION_RULES) = str ''line comment''"
    by (simp add: CONVERSION_RULES_def)
  ultimately show ?thesis by simp
qed

end
